theory Spec2Isabelle
  imports Complex_Main "HOL-Library.Product_Lexorder"
begin

section \<open>Data model of the strategy engine (strategy.py)\<close>

text \<open>
  A Python \<open>str\<close> is a sequence of Unicode code points; the texts handed to the engine
  contain CJK characters, so a text is a list of code points. The ASCII string literals
  of the program (pattern names, metadata keys, messages) are kept as \<open>string\<close>.
\<close>

type_synonym pystr = "nat list"

definition str :: "string \<Rightarrow> pystr" where
  "str s = map of_char s"

datatype StrategyType = CORRECTION | EXPANSION | TRANSLATION | SUMMARIZATION | COMPLETION | CUSTOM

datatype StrategyPriority = LOW | MEDIUM | HIGH | CRITICAL

fun priority_value :: "StrategyPriority \<Rightarrow> int" where
  "priority_value LOW = 1"
| "priority_value MEDIUM = 5"
| "priority_value HIGH = 10"
| "priority_value CRITICAL = 100"

text \<open>
  The confidences are the decimal literals 0.99, 0.95, 0.85, 0.8 and 0.75; they are only
  compared with each other, so they are kept as exact rationals.
\<close>

record StrategyMatch =
  strategy_type :: StrategyType
  confidence :: rat
  matched_patterns :: "string list"
  priority :: StrategyPriority
  metadata :: "(string \<times> string) list"

text \<open>
  \<open>sorted(xs, key=f, reverse=True)\<close> and \<open>xs.sort(key=f, reverse=True)\<close>: descending by
  key, and stable (elements with equal keys keep their order). A stable sort has one
  result only, so it is written as insertion from the left, each element going behind
  the elements whose key is not smaller.
\<close>

fun insert_desc :: "('a \<Rightarrow> 'k::linorder) \<Rightarrow> 'a \<Rightarrow> 'a list \<Rightarrow> 'a list" where
  "insert_desc f x [] = [x]"
| "insert_desc f x (y # ys) = (if f y < f x then x # y # ys else y # insert_desc f x ys)"

definition sorted_desc :: "('a \<Rightarrow> 'k::linorder) \<Rightarrow> 'a list \<Rightarrow> 'a list" where
  "sorted_desc f xs = foldl (\<lambda>acc x. insert_desc f x acc) [] xs"

section \<open>Providers (providers.py)\<close>

datatype ProviderType = OPENAI | ANTHROPIC | LOCAL | CUSTOM_PROVIDER

datatype MessageRole = SYSTEM | USER | ASSISTANT

record Message =
  role :: MessageRole
  msg_content :: pystr

text \<open>
  A decoded JSON document, as \<open>response.json()\<close> returns it: \<open>None\<close>, booleans, numbers,
  strings, lists and dicts with string keys.
\<close>

datatype json =
    JNull
  | JBool bool
  | JInt int
  | JFloat rat
  | JStr pystr
  | JArr "json list"
  | JObj "(pystr \<times> json) list"

text \<open>Exceptions of class \<open>Exception\<close>; \<open>ExceptionF\<close> is one whose message is a formatted value.\<close>

datatype exn =
    ValueError string
  | KeyError
  | IndexError
  | TypeError
  | AttributeError
  | JSONDecodeError
  | UnicodeEncodeError
  | TimeoutException
  | Exception string
  | ExceptionF string json

record ChatCompletion =
  content :: json
  model :: string
  usage :: json
  raw_response :: json

record ProviderConfig =
  ptype :: ProviderType
  api_key :: string
  endpoint :: "string option"
  cfg_model :: "string option"
  max_tokens :: int
  temperature :: rat
  timeout :: int
  retry_count :: int

text \<open>\<open>x[key]\<close> with a string key, \<open>x[0]\<close>, and \<open>x.get(key, default)\<close> on a decoded document.\<close>

fun getitem :: "json \<Rightarrow> string \<Rightarrow> exn + json" where
  "getitem (JObj kvs) key = (case map_of kvs (str key) of None \<Rightarrow> Inl KeyError | Some v \<Rightarrow> Inr v)"
| "getitem _ key = Inl TypeError"

fun getitem0 :: "json \<Rightarrow> exn + json" where
  "getitem0 (JArr []) = Inl IndexError"
| "getitem0 (JArr (x # xs)) = Inr x"
| "getitem0 (JStr []) = Inl IndexError"
| "getitem0 (JStr (c # cs)) = Inr (JStr [c])"
| "getitem0 (JObj kvs) = Inl KeyError"
| "getitem0 _ = Inl TypeError"

fun get_method :: "json \<Rightarrow> string \<Rightarrow> json \<Rightarrow> exn + json" where
  "get_method (JObj kvs) key dflt = (case map_of kvs (str key) of None \<Rightarrow> Inr dflt | Some v \<Rightarrow> Inr v)"
| "get_method _ key dflt = Inl AttributeError"

text \<open>
  An HTTP response is its status code and its body, decoded (\<open>None\<close> when the body is not
  JSON, where \<open>response.json()\<close> raises). One HTTP call gives a response, times out
  (\<open>httpx.TimeoutException\<close>) or raises another exception. The backend is the outcome of
  the calls of one \<open>complete\<close>, numbered in the order they are issued; the effects of
  \<open>complete\<close> are the number of HTTP calls and the \<open>asyncio.sleep\<close> delays, in seconds.
\<close>

record response =
  status_code :: int
  body :: "json option"

datatype http_outcome = Response response | Timeout | Failure exn

type_synonym backend = "nat \<Rightarrow> http_outcome"

record io =
  http_calls :: nat
  sleeps :: "nat list"

text \<open>What a provider does with a response whose status is not 200.\<close>

datatype non200 = Retry nat | Raise exn

text \<open>\<open>config.model or default\<close>: \<open>None\<close> and the empty string give the default.\<close>

definition model_or :: "string option \<Rightarrow> string \<Rightarrow> string" where
  "model_or m dflt = (case m of None \<Rightarrow> dflt | Some s \<Rightarrow> if s = [] then dflt else s)"

text \<open>The status-200 branch of \<open>OpenAIProvider.complete\<close>.\<close>

definition openai_ok :: "ProviderConfig \<Rightarrow> response \<Rightarrow> exn + ChatCompletion" where
  "openai_ok cfg r =
     (case body r of None \<Rightarrow> Inl JSONDecodeError
      | Some data \<Rightarrow>
     (case getitem data ''choices'' of Inl e \<Rightarrow> Inl e | Inr choices \<Rightarrow>
     (case getitem0 choices of Inl e \<Rightarrow> Inl e | Inr choice \<Rightarrow>
     (case getitem choice ''message'' of Inl e \<Rightarrow> Inl e | Inr message \<Rightarrow>
     (case getitem message ''content'' of Inl e \<Rightarrow> Inl e | Inr c \<Rightarrow>
     (case get_method data ''usage'' (JObj []) of Inl e \<Rightarrow> Inl e | Inr u \<Rightarrow>
        Inr \<lparr>content = c, model = model_or (cfg_model cfg) ''gpt-3.5-turbo'',
             usage = u, raw_response = data\<rparr>))))))"

text \<open>The other branch of \<open>OpenAIProvider.complete\<close>: 429 sleeps \<open>2 ** attempt\<close> and continues.\<close>

definition openai_error :: "response \<Rightarrow> nat \<Rightarrow> non200" where
  "openai_error r attempt =
     (case body r of None \<Rightarrow> Raise JSONDecodeError
      | Some error_data \<Rightarrow>
     (case get_method error_data ''error'' (JObj []) of Inl e \<Rightarrow> Raise e | Inr err \<Rightarrow>
     (case get_method err ''message'' (JStr (str ''Unknown error'')) of Inl e \<Rightarrow> Raise e
      | Inr error_msg \<Rightarrow>
        if status_code r = 429 then Retry (2 ^ attempt)
        else Raise (ExceptionF ''OpenAI API error: '' error_msg))))"

text \<open>The two branches of \<open>AnthropicProvider.complete\<close>.\<close>

definition anthropic_ok :: "ProviderConfig \<Rightarrow> response \<Rightarrow> exn + ChatCompletion" where
  "anthropic_ok cfg r =
     (case body r of None \<Rightarrow> Inl JSONDecodeError
      | Some data \<Rightarrow>
     (case getitem data ''content'' of Inl e \<Rightarrow> Inl e | Inr blocks \<Rightarrow>
     (case getitem0 blocks of Inl e \<Rightarrow> Inl e | Inr block \<Rightarrow>
     (case getitem block ''text'' of Inl e \<Rightarrow> Inl e | Inr c \<Rightarrow>
     (case get_method data ''usage'' (JObj []) of Inl e \<Rightarrow> Inl e | Inr u \<Rightarrow>
        Inr \<lparr>content = c, model = model_or (cfg_model cfg) ''claude-sonnet-4-20250514'',
             usage = u, raw_response = data\<rparr>)))))"

definition anthropic_error :: "response \<Rightarrow> nat \<Rightarrow> non200" where
  "anthropic_error r attempt =
     (case body r of None \<Rightarrow> Raise JSONDecodeError
      | Some error_data \<Rightarrow>
     (case get_method error_data ''error'' (JObj []) of Inl e \<Rightarrow> Raise e | Inr err \<Rightarrow>
     (case get_method err ''message'' (JStr (str ''Unknown error'')) of Inl e \<Rightarrow> Raise e
      | Inr error_msg \<Rightarrow>
        if status_code r = 429 then Retry (2 ^ attempt)
        else Raise (ExceptionF ''Anthropic API error: '' error_msg))))"

text \<open>The two branches of \<open>LocalProvider.complete\<close>: every status but 200 raises at once.\<close>

definition local_ok :: "ProviderConfig \<Rightarrow> response \<Rightarrow> exn + ChatCompletion" where
  "local_ok cfg r =
     (case body r of None \<Rightarrow> Inl JSONDecodeError
      | Some data \<Rightarrow>
     (case getitem data ''choices'' of Inl e \<Rightarrow> Inl e | Inr choices \<Rightarrow>
     (case getitem0 choices of Inl e \<Rightarrow> Inl e | Inr choice \<Rightarrow>
     (case getitem choice ''message'' of Inl e \<Rightarrow> Inl e | Inr message \<Rightarrow>
     (case getitem message ''content'' of Inl e \<Rightarrow> Inl e | Inr c \<Rightarrow>
        Inr \<lparr>content = c, model = model_or (cfg_model cfg) ''llama3'',
             usage = JObj [], raw_response = data\<rparr>)))))"

definition local_error :: "response \<Rightarrow> nat \<Rightarrow> non200" where
  "local_error r attempt = Raise (ExceptionF ''Local API error: '' (JInt (status_code r)))"

text \<open>
  The loop \<open>for attempt in range(retry_count)\<close>, which the three classes share but for
  the two branches above: a timeout sleeps one second and continues unless the attempt
  is the last one; leaving the loop raises \<open>Max retries exceeded\<close>.
\<close>

fun complete_loop :: "(response \<Rightarrow> exn + ChatCompletion) \<Rightarrow> (response \<Rightarrow> nat \<Rightarrow> non200)
    \<Rightarrow> int \<Rightarrow> backend \<Rightarrow> nat list \<Rightarrow> io \<Rightarrow> (exn + ChatCompletion) \<times> io" where
  "complete_loop ok err rc b [] s = (Inl (Exception ''Max retries exceeded''), s)"
| "complete_loop ok err rc b (attempt # rest) s =
     (case b (http_calls s) of
        Timeout \<Rightarrow>
          if int attempt < rc - 1
          then complete_loop ok err rc b rest
                 (s\<lparr>http_calls := http_calls s + 1, sleeps := sleeps s @ [1]\<rparr>)
          else (Inl TimeoutException, s\<lparr>http_calls := http_calls s + 1\<rparr>)
      | Failure e \<Rightarrow> (Inl e, s\<lparr>http_calls := http_calls s + 1\<rparr>)
      | Response r \<Rightarrow>
          if status_code r = 200 then (ok r, s\<lparr>http_calls := http_calls s + 1\<rparr>)
          else
            (case err r attempt of
               Retry secs \<Rightarrow>
                 complete_loop ok err rc b rest
                   (s\<lparr>http_calls := http_calls s + 1, sleeps := sleeps s @ [secs]\<rparr>)
             | Raise e \<Rightarrow> (Inl e, s\<lparr>http_calls := http_calls s + 1\<rparr>)))"

datatype variant = OpenAIProvider | AnthropicProvider | LocalProvider

fun variant_ok :: "variant \<Rightarrow> ProviderConfig \<Rightarrow> response \<Rightarrow> exn + ChatCompletion" where
  "variant_ok OpenAIProvider = openai_ok"
| "variant_ok AnthropicProvider = anthropic_ok"
| "variant_ok LocalProvider = local_ok"

fun variant_error :: "variant \<Rightarrow> response \<Rightarrow> nat \<Rightarrow> non200" where
  "variant_error OpenAIProvider = openai_error"
| "variant_error AnthropicProvider = anthropic_error"
| "variant_error LocalProvider = local_error"

definition complete :: "variant \<Rightarrow> ProviderConfig \<Rightarrow> backend \<Rightarrow> (exn + ChatCompletion) \<times> io" where
  "complete v cfg b =
     complete_loop (variant_ok v cfg) (variant_error v) (retry_count cfg) b
       [0 ..< nat (retry_count cfg)] \<lparr>http_calls = 0, sleeps = []\<rparr>"

text \<open>
  A response with status 429 from which the error message can be read: the body is a
  JSON object whose \<open>error\<close> entry, when present, is an object.
\<close>

definition readable_429 :: "http_outcome \<Rightarrow> bool" where
  "readable_429 out =
     (case out of
        Response r \<Rightarrow> status_code r = 429 \<and>
          (case body r of None \<Rightarrow> False
           | Some d \<Rightarrow> (case get_method d ''error'' (JObj []) of Inl e \<Rightarrow> False
               | Inr err \<Rightarrow>
                   (case get_method err ''message'' (JStr (str ''Unknown error'')) of
                      Inl e \<Rightarrow> False | Inr m \<Rightarrow> True)))
      | _ \<Rightarrow> False)"

definition is_429 :: "http_outcome \<Rightarrow> bool" where
  "is_429 out = (case out of Response r \<Rightarrow> status_code r = 429 | _ \<Rightarrow> False)"

text \<open>Sample responses, backends and configurations.\<close>

definition rate_limited :: response where
  "rate_limited = \<lparr>status_code = 429,
     body = Some (JObj [(str ''error'', JObj [(str ''message'', JStr (str ''Rate limit reached''))])])\<rparr>"

definition chat_success :: response where
  "chat_success = \<lparr>status_code = 200,
     body = Some (JObj [(str ''choices'',
       JArr [JObj [(str ''message'', JObj [(str ''content'', JStr (str ''Hi''))])]])])\<rparr>"

definition limited_then_ok :: "nat \<Rightarrow> backend" where
  "limited_then_ok n i = (if i < n then Response rate_limited else Response chat_success)"

definition default_config :: "ProviderType \<Rightarrow> ProviderConfig" where
  "default_config t = \<lparr>ptype = t, api_key = ''test-key'', endpoint = None, cfg_model = None,
     max_tokens = 1000, temperature = 7 / 10, timeout = 30, retry_count = 3\<rparr>"

definition hi_completion :: "string \<Rightarrow> ChatCompletion" where
  "hi_completion m = \<lparr>content = JStr (str ''Hi''), model = m, usage = JObj [],
     raw_response = JObj [(str ''choices'',
       JArr [JObj [(str ''message'', JObj [(str ''content'', JStr (str ''Hi''))])]])]\<rparr>"

section \<open>ProviderManager\<close>

text \<open>
  The manager holds objects of the abstract class \<open>AIProvider\<close>: a provider is what its
  methods do. \<open>complete\<close> returns a completion or raises; \<open>stream_complete\<close> yields a
  finite run of chunks and then ends or raises.
\<close>

record provider =
  provider_type :: ProviderType
  p_complete :: "Message list \<Rightarrow> bool \<Rightarrow> exn + ChatCompletion"
  stream_complete :: "Message list \<Rightarrow> pystr list \<times> exn option"

record manager =
  providers :: "ProviderType \<rightharpoonup> provider"
  active_provider :: "ProviderType option"
  fallback_provider :: "ProviderType option"

definition new_manager :: manager where
  "new_manager = \<lparr>providers = Map.empty, active_provider = None, fallback_provider = None\<rparr>"

definition register_provider :: "manager \<Rightarrow> provider \<Rightarrow> manager" where
  "register_provider m p = m\<lparr>providers := (providers m)(provider_type p \<mapsto> p)\<rparr>"

definition set_active_provider :: "manager \<Rightarrow> ProviderType \<Rightarrow> exn + manager" where
  "set_active_provider m t =
     (if t \<in> dom (providers m) then Inr (m\<lparr>active_provider := Some t\<rparr>)
      else Inl (ValueError ''Provider not registered''))"

definition set_fallback_provider :: "manager \<Rightarrow> ProviderType \<Rightarrow> exn + manager" where
  "set_fallback_provider m t =
     (if t \<in> dom (providers m) then Inr (m\<lparr>fallback_provider := Some t\<rparr>)
      else Inl (ValueError ''Provider not registered''))"

definition get_active_provider :: "manager \<Rightarrow> provider option" where
  "get_active_provider m = (case active_provider m of None \<Rightarrow> None | Some t \<Rightarrow> providers m t)"

text \<open>
  \<open>complete_with_fallback\<close> and \<open>stream_with_fallback\<close>; beside the result, the list of
  the providers whose method was invoked, in order.
\<close>

definition complete_with_fallback :: "manager \<Rightarrow> Message list \<Rightarrow> bool
    \<Rightarrow> (exn + ChatCompletion) \<times> ProviderType list" where
  "complete_with_fallback m messages stream =
     (case get_active_provider m of
        None \<Rightarrow> (Inl (ValueError ''No active provider configured''), [])
      | Some active \<Rightarrow>
          (case p_complete active messages stream of
             Inr c \<Rightarrow> (Inr c, [provider_type active])
           | Inl e \<Rightarrow>
               (case fallback_provider m of
                  None \<Rightarrow> (Inl e, [provider_type active])
                | Some ft \<Rightarrow>
                    (case providers m ft of
                       None \<Rightarrow> (Inl e, [provider_type active])
                     | Some fallback \<Rightarrow>
                         (p_complete fallback messages stream,
                          [provider_type active, provider_type fallback])))))"

definition stream_with_fallback :: "manager \<Rightarrow> Message list
    \<Rightarrow> (pystr list \<times> exn option) \<times> ProviderType list" where
  "stream_with_fallback m messages =
     (case get_active_provider m of
        None \<Rightarrow> (([], Some (ValueError ''No active provider configured'')), [])
      | Some active \<Rightarrow>
          (case stream_complete active messages of
             (chunks, None) \<Rightarrow> ((chunks, None), [provider_type active])
           | (chunks, Some e) \<Rightarrow>
               (case fallback_provider m of
                  None \<Rightarrow> ((chunks, None), [provider_type active])
                | Some ft \<Rightarrow>
                    (case providers m ft of
                       None \<Rightarrow> ((chunks, None), [provider_type active])
                     | Some fallback \<Rightarrow>
                         (case stream_complete fallback messages of
                            (chunks', r) \<Rightarrow>
                              ((chunks @ chunks', r),
                               [provider_type active, provider_type fallback]))))))"

text \<open>Providers with fixed behaviour, and a manager configured with them.\<close>

definition fixed_provider :: "ProviderType \<Rightarrow> exn + ChatCompletion \<Rightarrow> pystr list \<times> exn option \<Rightarrow> provider" where
  "fixed_provider t c s = \<lparr>provider_type = t, p_complete = (\<lambda>messages stream. c),
     stream_complete = (\<lambda>messages. s)\<rparr>"

definition manager_of :: "provider \<Rightarrow> provider option \<Rightarrow> manager" where
  "manager_of a f = (case f of
      None \<Rightarrow> \<lparr>providers = [provider_type a \<mapsto> a], active_provider = Some (provider_type a),
               fallback_provider = None\<rparr>
    | Some f' \<Rightarrow> \<lparr>providers = [provider_type a \<mapsto> a, provider_type f' \<mapsto> f'],
               active_provider = Some (provider_type a), fallback_provider = Some (provider_type f')\<rparr>)"

section \<open>StrategyChain\<close>

text \<open>
  \<open>_dependencies\<close> is a \<open>defaultdict(list)\<close>; \<open>add_dependency\<close> appends to the entry of
  the strategy, creating it when missing.
\<close>

type_synonym dependencies = "StrategyType \<rightharpoonup> StrategyType list"

definition deps_get :: "dependencies \<Rightarrow> StrategyType \<Rightarrow> StrategyType list" where
  "deps_get D k = (case D k of None \<Rightarrow> [] | Some ds \<Rightarrow> ds)"

definition add_dependency :: "dependencies \<Rightarrow> StrategyType \<Rightarrow> StrategyType \<Rightarrow> dependencies" where
  "add_dependency D strategy depends_on = D(strategy \<mapsto> deps_get D strategy @ [depends_on])"

text \<open>The inner loop of \<open>build_chain\<close> over \<open>deps\<close>; the state is \<open>(chain, processed)\<close>.\<close>

fun emit_deps :: "StrategyType list \<Rightarrow> StrategyType list \<times> StrategyType set
    \<Rightarrow> StrategyType list \<times> StrategyType set" where
  "emit_deps [] (chain, processed) = (chain, processed)"
| "emit_deps (dep # deps) (chain, processed) =
     (if dep \<notin> processed then emit_deps deps (chain @ [dep], insert dep processed)
      else emit_deps deps (chain, processed))"

text \<open>The outer loop of \<open>build_chain\<close> over the sorted matches.\<close>

fun build_loop :: "dependencies \<Rightarrow> StrategyMatch list \<Rightarrow> StrategyType list \<times> StrategyType set
    \<Rightarrow> StrategyType list \<times> StrategyType set" where
  "build_loop D [] (chain, processed) = (chain, processed)"
| "build_loop D (m # ms) (chain, processed) =
     (if strategy_type m \<in> processed then build_loop D ms (chain, processed)
      else
        (case emit_deps (deps_get D (strategy_type m)) (chain, processed) of
           (chain', processed') \<Rightarrow>
             build_loop D ms (chain' @ [strategy_type m], insert (strategy_type m) processed')))"

definition build_chain :: "dependencies \<Rightarrow> StrategyMatch list \<Rightarrow> StrategyType list" where
  "build_chain D matches =
     (if matches = [] then []
      else fst (build_loop D (sorted_desc (\<lambda>m. priority_value (priority m)) matches) ([], {})))"

text \<open>
  \<open>execute_chain\<close>: the processor is the caller's transform. A call of it returns a text,
  raises an exception of class \<open>Exception\<close>, which the handler \<open>except Exception\<close> catches
  and logs, or raises an exception outside that class (\<open>KeyboardInterrupt\<close>, \<open>SystemExit\<close>
  or another \<open>BaseException\<close>), which the handler lets through: the loop ends there and
  the exception reaches the caller. The loop state is the running text, the calls made
  so far and the logged failures.
\<close>

datatype base_exn = KeyboardInterrupt | SystemExit | BaseException string

datatype outcome = Returns pystr | Raises exn | RaisesBase base_exn

type_synonym processor = "pystr \<Rightarrow> StrategyType \<Rightarrow> outcome"

record exec_state =
  running :: pystr
  calls :: "(pystr \<times> StrategyType) list"
  logged :: "(StrategyType \<times> exn) list"

fun execute_loop :: "processor \<Rightarrow> StrategyType list \<Rightarrow> exec_state
    \<Rightarrow> base_exn option \<times> exec_state" where
  "execute_loop p [] st = (None, st)"
| "execute_loop p (k # ks) st =
     (case p (running st) k of
        Returns t \<Rightarrow>
          execute_loop p ks (st\<lparr>running := t, calls := calls st @ [(running st, k)]\<rparr>)
      | Raises e \<Rightarrow>
          execute_loop p ks
            (st\<lparr>calls := calls st @ [(running st, k)], logged := logged st @ [(k, e)]\<rparr>)
      | RaisesBase b \<Rightarrow> (Some b, st\<lparr>calls := calls st @ [(running st, k)]\<rparr>))"

definition execute_chain_st :: "pystr \<Rightarrow> StrategyType list \<Rightarrow> processor
    \<Rightarrow> base_exn option \<times> exec_state" where
  "execute_chain_st txt chain p = execute_loop p chain \<lparr>running = txt, calls = [], logged = []\<rparr>"

definition execute_chain :: "pystr \<Rightarrow> StrategyType list \<Rightarrow> processor \<Rightarrow> base_exn + pystr" where
  "execute_chain txt chain p =
     (case execute_chain_st txt chain p of
        (None, st) \<Rightarrow> Inr (running st)
      | (Some b, st) \<Rightarrow> Inl b)"

text \<open>
  The specification's words for \<open>execute_chain\<close>: one step feeds the running text through
  the transform and keeps the running text when the transform fails; the texts fed to
  the transform are the running texts before each step. A call is system-exiting when
  it raises outside \<open>Exception\<close>.
\<close>

definition spec_step :: "processor \<Rightarrow> pystr \<Rightarrow> StrategyType \<Rightarrow> pystr" where
  "spec_step p t k = (case p t k of Returns t' \<Rightarrow> t' | Raises e \<Rightarrow> t | RaisesBase b \<Rightarrow> t)"

fun spec_inputs :: "processor \<Rightarrow> pystr \<Rightarrow> StrategyType list \<Rightarrow> (pystr \<times> StrategyType) list" where
  "spec_inputs p t [] = []"
| "spec_inputs p t (k # ks) = (t, k) # spec_inputs p (spec_step p t k) ks"

fun system_exiting :: "outcome \<Rightarrow> bool" where
  "system_exiting (RaisesBase b) = True"
| "system_exiting (Returns t) = False"
| "system_exiting (Raises e) = False"

definition completes :: "processor \<Rightarrow> pystr \<Rightarrow> StrategyType list \<Rightarrow> bool" where
  "completes p txt chain =
     list_all (\<lambda>(t, k). \<not> system_exiting (p t k)) (spec_inputs p txt chain)"

text \<open>
  Sample transforms: one that appends an exclamation mark and raises an \<open>Exception\<close> for
  one kind, and one that returns its text and raises \<open>KeyboardInterrupt\<close> for one kind.
\<close>

definition fail_on :: "StrategyType \<Rightarrow> processor" where
  "fail_on k0 t k = (if k = k0 then Raises (Exception ''failed'') else Returns (t @ [33]))"

definition interrupt_on :: "StrategyType \<Rightarrow> processor" where
  "interrupt_on k0 t k = (if k = k0 then RaisesBase KeyboardInterrupt else Returns t)"

text \<open>\<open>d\<close> stands in the chain before the first occurrence of \<open>k\<close>.\<close>

definition before :: "StrategyType \<Rightarrow> StrategyType \<Rightarrow> StrategyType list \<Rightarrow> bool" where
  "before d k chain = (d \<in> set (takeWhile (\<lambda>x. x \<noteq> k) chain))"

text \<open>
  Conditions on the declared dependencies: no kind is declared as a dependency of
  itself; no declared dependency has declared dependencies of its own. And the ordering
  property of a chain: every declared dependency of a kind of the chain stands before it.
\<close>

definition no_self_dep :: "dependencies \<Rightarrow> bool" where
  "no_self_dep D = (\<forall>k. k \<notin> set (deps_get D k))"

definition flat_deps :: "dependencies \<Rightarrow> bool" where
  "flat_deps D = (\<forall>k. \<forall>d \<in> set (deps_get D k). deps_get D d = [])"

definition deps_first :: "dependencies \<Rightarrow> StrategyType list \<Rightarrow> bool" where
  "deps_first D chain = (\<forall>k \<in> set chain. \<forall>d \<in> set (deps_get D k). before d k chain)"

text \<open>
  The kinds that the outer loop of \<open>build_chain\<close> emits for their own match, in order:
  a match whose kind is already processed is skipped; otherwise its kind is emitted,
  and its dependencies and its kind are processed from then on.
\<close>

fun own_kinds :: "dependencies \<Rightarrow> StrategyMatch list \<Rightarrow> StrategyType set \<Rightarrow> StrategyType list" where
  "own_kinds D [] processed = []"
| "own_kinds D (m # ms) processed =
     (if strategy_type m \<in> processed then own_kinds D ms processed
      else strategy_type m #
           own_kinds D ms
             (insert (strategy_type m) (processed \<union> set (deps_get D (strategy_type m)))))"

definition sorted_matches :: "StrategyMatch list \<Rightarrow> StrategyMatch list" where
  "sorted_matches matches = sorted_desc (\<lambda>m. priority_value (priority m)) matches"

text \<open>
  A dependency map with two levels: expansion needs correction, correction needs
  translation.
\<close>

definition two_level :: dependencies where
  "two_level = add_dependency (add_dependency Map.empty EXPANSION CORRECTION) CORRECTION TRANSLATION"

section \<open>Regular expressions (Python's \<open>re\<close>, as far as the detectors use it)\<close>

text \<open>
  What the program takes from the Python runtime and cannot be written out here: which
  characters beyond ASCII are alphanumeric (\<open>str.isalnum\<close>, which decides \<open>\w\<close> and
  \<open>\b\<close>), \<open>hashlib.md5(...).hexdigest()\<close>, and \<open>str(sorted(context.items()))\<close> for a
  context dictionary, given by its items. They are parameters of the model.
\<close>

type_synonym context_dict = "(pystr \<times> pystr) list"

record runtime =
  isalnum_beyond_ascii :: "nat \<Rightarrow> bool"
  md5_hexdigest :: "pystr \<Rightarrow> pystr"
  str_sorted_items :: "context_dict \<Rightarrow> pystr"

text \<open>
  The patterns of the detectors use literals, \<open>.\<close>, \<open>\w\<close>, \<open>\s\<close>, character ranges,
  concatenation, alternation, repetition (\<open>*\<close>, \<open>+\<close>, \<open>?\<close>, \<open>{m,n}\<close>) and the assertions
  \<open>^\<close>, \<open>$\<close> and \<open>\b\<close>; no flags but \<open>IGNORECASE\<close>.
\<close>

datatype regex =
    Eps
  | Lit nat
  | Dot
  | Word
  | Space
  | Ranges "(nat \<times> nat) list"
  | Seq regex regex
  | Alt regex regex
  | Rep nat "nat option" regex
  | Bol
  | Eol
  | WordB

definition lits :: "string \<Rightarrow> regex" where
  "lits s = foldr (\<lambda>c r. Seq (Lit (of_char c)) r) s Eps"

definition seq :: "regex list \<Rightarrow> regex" where
  "seq rs = foldr Seq rs Eps"

fun alts :: "regex list \<Rightarrow> regex" where
  "alts [] = Ranges []"
| "alts [r] = r"
| "alts (r # rs) = Alt r (alts rs)"

definition Plus :: "regex \<Rightarrow> regex" where "Plus r = Rep 1 None r"
definition Star :: "regex \<Rightarrow> regex" where "Star r = Rep 0 None r"
definition Opt :: "regex \<Rightarrow> regex" where "Opt r = Rep 0 (Some 1) r"

text \<open>
  The characters \<open>\s\<close> matches in a \<open>str\<close> pattern. Letters of the patterns are ASCII;
  under \<open>IGNORECASE\<close> an ASCII letter matches both its cases and, for i, s and k, the
  characters U+0130 and U+0131, U+017F, and U+212A, which Python takes as case variants
  of these letters.
\<close>

definition is_space :: "nat \<Rightarrow> bool" where
  "is_space c = (c \<in> {9, 10, 11, 12, 13, 28, 29, 30, 31, 32, 133, 160, 5760, 8192, 8193, 8194,
      8195, 8196, 8197, 8198, 8199, 8200, 8201, 8202, 8232, 8233, 8239, 8287, 12288})"

definition ascii_upper :: "nat \<Rightarrow> bool" where "ascii_upper c = (65 \<le> c \<and> c \<le> 90)"
definition ascii_lower :: "nat \<Rightarrow> bool" where "ascii_lower c = (97 \<le> c \<and> c \<le> 122)"

definition is_word :: "runtime \<Rightarrow> nat \<Rightarrow> bool" where
  "is_word R c = (if c < 128 then ascii_upper c \<or> ascii_lower c \<or> (48 \<le> c \<and> c \<le> 57) \<or> c = 95
                  else isalnum_beyond_ascii R c)"

definition to_lower :: "nat \<Rightarrow> nat" where
  "to_lower c = (if ascii_upper c then c + 32 else c)"

definition lit_matches :: "bool \<Rightarrow> nat \<Rightarrow> nat \<Rightarrow> bool" where
  "lit_matches ic p x =
     (if ic then
        x = p \<or> ((ascii_upper p \<or> ascii_lower p) \<and>
          (to_lower x = to_lower p
           \<or> (to_lower p = 105 \<and> (x = 304 \<or> x = 305))
           \<or> (to_lower p = 115 \<and> x = 383)
           \<or> (to_lower p = 107 \<and> x = 8490)))
      else x = p)"

text \<open>
  A position in the subject: the character before it, if any, and the characters from
  it on. \<open>ends r p\<close> lists the positions where a match of \<open>r\<close> that starts at \<open>p\<close> can
  end; \<open>re.match\<close> and \<open>re.search\<close> return a match exactly when there is one, at the
  start or at any position. An unbounded repetition needs no more rounds than its lower
  bound plus the number of characters left.
\<close>

type_synonym pos = "nat option \<times> nat list"

fun take_char :: "(nat \<Rightarrow> bool) \<Rightarrow> pos \<Rightarrow> pos list" where
  "take_char P (prev, []) = []"
| "take_char P (prev, c # cs) = (if P c then [(Some c, cs)] else [])"

fun at_eol :: "pos \<Rightarrow> bool" where
  "at_eol (prev, []) = True"
| "at_eol (prev, [c]) = (c = 10)"
| "at_eol (prev, c # d # cs) = False"

fun at_boundary :: "runtime \<Rightarrow> pos \<Rightarrow> bool" where
  "at_boundary R (prev, rest) =
     ((case prev of None \<Rightarrow> False | Some c \<Rightarrow> is_word R c)
      \<noteq> (case rest of [] \<Rightarrow> False | c # cs \<Rightarrow> is_word R c))"

fun rep :: "(pos \<Rightarrow> pos list) \<Rightarrow> nat \<Rightarrow> nat \<Rightarrow> pos \<Rightarrow> pos list" where
  "rep f lo 0 p = (if lo = 0 then [p] else [])"
| "rep f lo (Suc h) p = (if lo = 0 then [p] else []) @ concat (map (rep f (lo - 1) h) (f p))"

fun ends :: "runtime \<Rightarrow> bool \<Rightarrow> regex \<Rightarrow> pos \<Rightarrow> pos list" where
  "ends R ic Eps p = [p]"
| "ends R ic (Lit c) p = take_char (lit_matches ic c) p"
| "ends R ic Dot p = take_char (\<lambda>x. x \<noteq> 10) p"
| "ends R ic Word p = take_char (is_word R) p"
| "ends R ic Space p = take_char is_space p"
| "ends R ic (Ranges rs) p = take_char (\<lambda>x. list_ex (\<lambda>(lo, hi). lo \<le> x \<and> x \<le> hi) rs) p"
| "ends R ic (Seq r1 r2) p = concat (map (ends R ic r2) (ends R ic r1 p))"
| "ends R ic (Alt r1 r2) p = ends R ic r1 p @ ends R ic r2 p"
| "ends R ic (Rep lo hi r) p =
     rep (ends R ic r) lo (case hi of None \<Rightarrow> lo + length (snd p) | Some h \<Rightarrow> h) p"
| "ends R ic Bol p = (if fst p = None then [p] else [])"
| "ends R ic Eol p = (if at_eol p then [p] else [])"
| "ends R ic WordB p = (if at_boundary R p then [p] else [])"

definition re_match :: "runtime \<Rightarrow> bool \<Rightarrow> regex \<Rightarrow> pystr \<Rightarrow> bool" where
  "re_match R ic r s = (ends R ic r (None, s) \<noteq> [])"

fun search_from :: "runtime \<Rightarrow> bool \<Rightarrow> regex \<Rightarrow> nat option \<Rightarrow> nat list \<Rightarrow> bool" where
  "search_from R ic r prev [] = (ends R ic r (prev, []) \<noteq> [])"
| "search_from R ic r prev (c # cs) =
     (ends R ic r (prev, c # cs) \<noteq> [] \<or> search_from R ic r (Some c) cs)"

definition re_search :: "runtime \<Rightarrow> bool \<Rightarrow> regex \<Rightarrow> pystr \<Rightarrow> bool" where
  "re_search R ic r s = search_from R ic r None s"

section \<open>PatternMatcher\<close>

definition cjk :: regex where "cjk = Ranges [(19968, 40869)]"
definition latin :: regex where "latin = Ranges [(97, 122), (65, 90)]"

definition typo_word :: "string \<Rightarrow> regex" where
  "typo_word w = seq [WordB, lits w, WordB]"

definition detect_typos :: "runtime \<Rightarrow> pystr \<Rightarrow> bool" where
  "detect_typos R text =
     list_ex (\<lambda>pattern. re_search R True pattern text)
       [typo_word ''teh'', typo_word ''taht'', typo_word ''wrok'', typo_word ''taht'',
        typo_word ''recieved'', typo_word ''occured'', typo_word ''seperate'',
        typo_word ''definately'', typo_word ''accomodate'']"

definition detect_expansion_candidate :: "runtime \<Rightarrow> pystr \<Rightarrow> bool" where
  "detect_expansion_candidate R text =
     list_ex (\<lambda>pattern. re_match R False pattern text)
       [seq [Bol, Rep 1 (Some 10) Dot, Eol],
        seq [WordB, alts [lits ''AI'', lits ''API'', lits ''SDK'', lits ''URL'', lits ''HTTP'',
                          lits ''TCP'', lits ''UDP''], WordB]]"

definition detect_translation_candidate :: "runtime \<Rightarrow> pystr \<Rightarrow> bool \<times> string" where
  "detect_translation_candidate R text =
     (if re_match R False
           (Alt (seq [Bol, Plus cjk, Lit 32, Plus latin, Eol])
                (seq [Bol, Plus latin, Lit 32, Plus cjk, Eol])) text
      then (True, ''mixed'')
      else
        let has_chinese = re_search R False cjk text;
            has_english = re_search R False latin text
        in if has_chinese \<and> \<not> has_english then (True, ''zh-en'')
           else if has_english \<and> \<not> has_chinese then (True, ''en-zh'')
           else (False, ''''))"

definition detect_email_context :: "runtime \<Rightarrow> pystr \<Rightarrow> bool" where
  "detect_email_context R text =
     list_ex (\<lambda>pattern. re_search R True pattern text)
       [seq [lits ''dear'', Plus Space, Plus Word],
        seq [lits ''best'', Plus Space, lits ''regards''],
        lits ''sincerely'',
        seq [Plus Word, lits ''@'', Plus Word, lits ''.'', Plus Word],
        seq [lits ''please'', Plus Space, lits ''find'']]"

definition detect_chat_context :: "runtime \<Rightarrow> pystr \<Rightarrow> bool" where
  "detect_chat_context R text =
     list_ex (\<lambda>pattern. re_search R True pattern text)
       [lits ''LOL'',
        alts [lits '':)'', lits '':('', lits '':D''],
        seq [lits ''he'', Plus (Lit 121), Plus Space, Star Word],
        seq [lits ''what'', Opt (Lit 115), Plus Space, lits ''up''],
        lits ''brb'',
        lits ''ttyl'']"

definition detect_code :: "runtime \<Rightarrow> pystr \<Rightarrow> bool" where
  "detect_code R text =
     list_ex (\<lambda>pattern. re_search R False pattern text)
       [seq [lits ''function'', Plus Space, Plus Word],
        seq [lits ''def'', Plus Space, Plus Word],
        seq [lits ''class'', Plus Space, Plus Word],
        seq [lits ''const'', Plus Space, Plus Word],
        seq [lits ''let'', Plus Space, Plus Word],
        seq [lits ''var'', Plus Space, Plus Word],
        seq [lits ''import'', Plus Space, Star Dot, lits ''from''],
        lits ''#include'',
        lits ''console.log'',
        lits ''print('']"

text \<open>
  A runtime for evaluating examples: the CJK ideographs U+4E00 to U+9FA5 are the only
  alphanumeric characters beyond ASCII that the example texts contain; the digest and
  the rendering of a context are stand-ins (the examples do not depend on them).
\<close>

definition sample_runtime :: runtime where
  "sample_runtime = \<lparr>isalnum_beyond_ascii = (\<lambda>c. 19968 \<le> c \<and> c \<le> 40869),
     md5_hexdigest = (\<lambda>content. content), str_sorted_items = (\<lambda>items. concat (map (\<lambda>(k, v). k @ v) items))\<rparr>"

text \<open>
  The text of the scenario: the ideographs U+9879 U+76EE U+4F7F U+7528 U+4E86, then
  \<open>" React "\<close>, U+548C and \<open>" Node.js"\<close>: 21 characters.
\<close>

definition react_text :: pystr where
  "react_text = [39033, 30446, 20351, 29992, 20102] @ str '' React '' @ [21644] @ str '' Node.js''"

text \<open>The matches that \<open>match_strategies\<close> creates for a typo and for an expansion candidate.\<close>

definition typo_match :: StrategyMatch where
  "typo_match = \<lparr>strategy_type = CORRECTION, confidence = 95 / 100,
     matched_patterns = [''typo_detected''], priority = HIGH, metadata = []\<rparr>"

definition expansion_match :: StrategyMatch where
  "expansion_match = \<lparr>strategy_type = EXPANSION, confidence = 75 / 100,
     matched_patterns = [''short_text'', ''expansion_candidate''], priority = MEDIUM,
     metadata = []\<rparr>"


section \<open>StrategyMatcher\<close>

record UserPreferences =
  preferred_language :: string
  correction_enabled :: bool
  expansion_enabled :: bool
  translation_enabled :: bool
  summarization_enabled :: bool
  auto_expand_shortcuts :: bool
  strategy_priorities :: "StrategyType \<rightharpoonup> int"
  learned_preferences :: "(pystr \<times> rat) list"

definition default_preferences :: UserPreferences where
  "default_preferences = \<lparr>preferred_language = ''zh'', correction_enabled = True,
     expansion_enabled = True, translation_enabled = True, summarization_enabled = True,
     auto_expand_shortcuts = True, strategy_priorities = Map.empty,
     learned_preferences = []\<rparr>"

text \<open>
  The \<open>StrategyMatch\<close> objects are shared between the lists the matcher returns and the
  lists in its cache, and \<open>_apply_preferences\<close> assigns to a field of them: the objects
  live in a store, a list indexed by address, and the lists hold addresses. The cache
  is a \<open>dict\<close>, which keeps its keys in insertion order.
\<close>

record matcher =
  heap :: "StrategyMatch list"
  match_cache :: "(pystr \<times> nat list) list"
  cache_size :: nat

definition new_matcher :: matcher where
  "new_matcher = \<lparr>heap = [], match_cache = [], cache_size = 1000\<rparr>"

text \<open>\<open>d[k] = v\<close>: an existing key keeps its place, a new key goes to the end.\<close>

fun dict_set :: "('k \<times> 'v) list \<Rightarrow> 'k \<Rightarrow> 'v \<Rightarrow> ('k \<times> 'v) list" where
  "dict_set [] k v = [(k, v)]"
| "dict_set ((k', v') # d) k v = (if k' = k then (k, v) # d else (k', v') # dict_set d k v)"

text \<open>\<open>StrategyPriority(value)\<close>: the member with that value, or \<open>ValueError\<close>.\<close>

definition priority_of_value :: "int \<Rightarrow> exn + StrategyPriority" where
  "priority_of_value v =
     (if v = 1 then Inr LOW else if v = 5 then Inr MEDIUM else if v = 10 then Inr HIGH
      else if v = 100 then Inr CRITICAL
      else Inl (ValueError ''not a valid StrategyPriority''))"

text \<open>
  \<open>_generate_cache_key\<close>. \<open>content.encode()\<close> raises \<open>UnicodeEncodeError\<close> on a lone
  surrogate (U+D800 to U+DFFF), which a \<open>str\<close> can hold.
\<close>

definition surrogate :: "nat \<Rightarrow> bool" where
  "surrogate c = (55296 \<le> c \<and> c \<le> 57343)"

definition generate_cache_key :: "runtime \<Rightarrow> pystr \<Rightarrow> context_dict option \<Rightarrow> exn + pystr" where
  "generate_cache_key R text ctx =
     (let content = take 100 text @
            (case ctx of None \<Rightarrow> []
             | Some items \<Rightarrow> if items = [] then [] else str_sorted_items R items)
      in if list_ex surrogate content then Inl UnicodeEncodeError
         else Inr (md5_hexdigest R content))"

text \<open>
  \<open>_apply_preferences\<close>: the loop over the matches, with the result list and the store;
  \<open>match.priority = StrategyPriority(priority_override)\<close> writes to the object.
\<close>

fun apply_preferences_loop :: "UserPreferences \<Rightarrow> nat list \<Rightarrow> nat list \<Rightarrow> StrategyMatch list
    \<Rightarrow> (exn + nat list) \<times> StrategyMatch list" where
  "apply_preferences_loop prefs [] result h = (Inr result, h)"
| "apply_preferences_loop prefs (a # as) result h =
     (let m = h ! a in
      if strategy_type m = CORRECTION \<and> \<not> correction_enabled prefs
        then apply_preferences_loop prefs as result h
      else if strategy_type m = EXPANSION \<and> \<not> expansion_enabled prefs
        then apply_preferences_loop prefs as result h
      else if strategy_type m = TRANSLATION \<and> \<not> translation_enabled prefs
        then apply_preferences_loop prefs as result h
      else if strategy_type m = SUMMARIZATION \<and> \<not> summarization_enabled prefs
        then apply_preferences_loop prefs as result h
      else
        (case strategy_priorities prefs (strategy_type m) of
           None \<Rightarrow> apply_preferences_loop prefs as (result @ [a]) h
         | Some priority_override \<Rightarrow>
             if priority_override = 0 then apply_preferences_loop prefs as (result @ [a]) h
             else
               (case priority_of_value priority_override of
                  Inl e \<Rightarrow> (Inl e, h)
                | Inr pr \<Rightarrow>
                    apply_preferences_loop prefs as (result @ [a])
                      (h[a := m\<lparr>priority := pr\<rparr>]))))"

definition apply_preferences :: "matcher \<Rightarrow> nat list \<Rightarrow> UserPreferences
    \<Rightarrow> (exn + nat list) \<times> matcher" where
  "apply_preferences M matches prefs =
     (case apply_preferences_loop prefs matches [] (heap M) of
        (res, h) \<Rightarrow> (res, M\<lparr>heap := h\<rparr>))"

text \<open>
  \<open>_finalize_matches\<close>: sorts the list, evicts the oldest key when the cache holds more
  than \<open>_cache_size\<close> entries, stores a copy of the list. The preferences are not used.
\<close>

definition finalize_matches :: "matcher \<Rightarrow> nat list \<Rightarrow> pystr \<Rightarrow> UserPreferences option
    \<Rightarrow> nat list \<times> matcher" where
  "finalize_matches M matches cache_key preferences =
     (let sorted = sorted_desc
            (\<lambda>a. (priority_value (priority (heap M ! a)), confidence (heap M ! a))) matches;
          cache = (if length (match_cache M) > cache_size M then tl (match_cache M)
                   else match_cache M)
      in (sorted, M\<lparr>match_cache := dict_set cache cache_key sorted\<rparr>))"

text \<open>\<open>matches.append(StrategyMatch(...))\<close>: a new object, and its address at the end.\<close>

definition append_new :: "nat list \<times> matcher \<Rightarrow> StrategyMatch \<Rightarrow> nat list \<times> matcher" where
  "append_new st m =
     (case st of (matches, M) \<Rightarrow>
        (matches @ [length (heap M)], M\<lparr>heap := heap M @ [m]\<rparr>))"

definition code_match :: StrategyMatch where
  "code_match = \<lparr>strategy_type = CUSTOM, confidence = 99 / 100,
     matched_patterns = [''code_detected''], priority = CRITICAL,
     metadata = [(''action'', ''protect_code'')]\<rparr>"

definition translation_match :: "string \<Rightarrow> StrategyMatch" where
  "translation_match direction = \<lparr>strategy_type = TRANSLATION, confidence = 85 / 100,
     matched_patterns = [''translation_candidate''], priority = MEDIUM,
     metadata = [(''direction'', direction)]\<rparr>"

definition email_match :: StrategyMatch where
  "email_match = \<lparr>strategy_type = CUSTOM, confidence = 8 / 10,
     matched_patterns = [''email_context''], priority = LOW,
     metadata = [(''action'', ''formal_tone'')]\<rparr>"

definition chat_match :: StrategyMatch where
  "chat_match = \<lparr>strategy_type = CUSTOM, confidence = 8 / 10,
     matched_patterns = [''chat_context''], priority = LOW,
     metadata = [(''action'', ''casual_tone'')]\<rparr>"

text \<open>
  The part of \<open>match_strategies\<close> after a cache miss when no code is detected: the
  detectors in their order, each appending its match.
\<close>

definition classify :: "runtime \<Rightarrow> matcher \<Rightarrow> pystr \<Rightarrow> UserPreferences option
    \<Rightarrow> nat list \<times> matcher" where
  "classify R M text preferences =
     (let st = ([], M);
          st = (if detect_typos R text then append_new st typo_match else st);
          tr = detect_translation_candidate R text;
          st = (if fst tr \<and> (case preferences of None \<Rightarrow> False
                                | Some p \<Rightarrow> translation_enabled p)
                then append_new st (translation_match (snd tr)) else st);
          st = (if detect_expansion_candidate R text
                   \<and> (case preferences of None \<Rightarrow> False | Some p \<Rightarrow> expansion_enabled p)
                then append_new st expansion_match else st);
          st = (if detect_email_context R text then append_new st email_match else st);
          st = (if detect_chat_context R text then append_new st chat_match else st)
      in st)"

definition match_strategies :: "runtime \<Rightarrow> matcher \<Rightarrow> pystr \<Rightarrow> context_dict option
    \<Rightarrow> UserPreferences option \<Rightarrow> (exn + nat list) \<times> matcher" where
  "match_strategies R M text ctx preferences =
     (case generate_cache_key R text ctx of
        Inl e \<Rightarrow> (Inl e, M)
      | Inr cache_key \<Rightarrow>
          (case map_of (match_cache M) cache_key of
             Some matches \<Rightarrow>
               (case preferences of
                  None \<Rightarrow> (Inr matches, M)
                | Some prefs \<Rightarrow> apply_preferences M matches prefs)
           | None \<Rightarrow>
               if detect_code R text
               then (case append_new ([], M) code_match of
                       (matches, M') \<Rightarrow>
                         (case finalize_matches M' matches cache_key preferences of
                            (res, M'') \<Rightarrow> (Inr res, M'')))
               else (case classify R M text preferences of
                       (matches, M') \<Rightarrow>
                         (case finalize_matches M' matches cache_key preferences of
                            (res, M'') \<Rightarrow> (Inr res, M'')))))"

text \<open>The objects a returned list refers to, read in the matcher's store.\<close>

definition objects :: "matcher \<Rightarrow> nat list \<Rightarrow> StrategyMatch list" where
  "objects M addrs = map (\<lambda>a. heap M ! a) addrs"

text \<open>
  Preferences with correction switched off, and the matcher after the first call of
  \<open>match_strategies\<close> on the text \<open>"teh"\<close> with a preferences object.
\<close>

definition no_correction :: UserPreferences where
  "no_correction = default_preferences\<lparr>correction_enabled := False\<rparr>"

definition teh_cached :: "runtime \<Rightarrow> matcher" where
  "teh_cached R = \<lparr>heap = [typo_match, translation_match ''en-zh'', expansion_match],
     match_cache = [(md5_hexdigest R (str ''teh''), [0, 1, 2])], cache_size = 1000\<rparr>"

text \<open>
  Preferences that override the priority of corrections: with the default flags, with
  correction switched off, and with a value that is no priority. And the matcher
  \<open>teh_cached\<close> after the override has been written to the cached correction match.
\<close>

definition correction_critical :: UserPreferences where
  "correction_critical = default_preferences\<lparr>strategy_priorities := [CORRECTION \<mapsto> 100]\<rparr>"

definition disabled_override :: UserPreferences where
  "disabled_override = no_correction\<lparr>strategy_priorities := [CORRECTION \<mapsto> 100]\<rparr>"

definition invalid_override :: UserPreferences where
  "invalid_override = default_preferences\<lparr>strategy_priorities := [CORRECTION \<mapsto> 7]\<rparr>"

definition teh_overridden :: "runtime \<Rightarrow> matcher" where
  "teh_overridden R = \<lparr>heap = [typo_match\<lparr>priority := CRITICAL\<rparr>,
       translation_match ''en-zh'', expansion_match],
     match_cache = [(md5_hexdigest R (str ''teh''), [0, 1, 2])], cache_size = 1000\<rparr>"

text \<open>
  Whether the flags of the preferences let a kind through the filter of
  \<open>_apply_preferences\<close>, and what one round of its loop does with a match: skip it, keep
  it, keep it with a new priority, or raise.
\<close>

definition enabled :: "UserPreferences \<Rightarrow> StrategyType \<Rightarrow> bool" where
  "enabled prefs k =
     (case k of CORRECTION \<Rightarrow> correction_enabled prefs
      | EXPANSION \<Rightarrow> expansion_enabled prefs
      | TRANSLATION \<Rightarrow> translation_enabled prefs
      | SUMMARIZATION \<Rightarrow> summarization_enabled prefs
      | COMPLETION \<Rightarrow> True
      | CUSTOM \<Rightarrow> True)"

datatype visit = Skip | Keep | Write StrategyPriority | Fail exn

definition visit :: "UserPreferences \<Rightarrow> StrategyMatch \<Rightarrow> visit" where
  "visit prefs m =
     (if \<not> enabled prefs (strategy_type m) then Skip
      else case strategy_priorities prefs (strategy_type m) of
             None \<Rightarrow> Keep
           | Some v \<Rightarrow> if v = 0 then Keep
                       else (case priority_of_value v of Inl e \<Rightarrow> Fail e | Inr pr \<Rightarrow> Write pr))"

text \<open>A run of calls of \<open>match_strategies\<close>, one per text, without context or preferences.\<close>

fun match_all :: "runtime \<Rightarrow> matcher \<Rightarrow> pystr list \<Rightarrow> matcher" where
  "match_all R M [] = M"
| "match_all R M (t # ts) = match_all R (snd (match_strategies R M t None None)) ts"

definition single_chars :: "nat \<Rightarrow> pystr list" where
  "single_chars n = map (\<lambda>c. [c]) [0 ..< n]"

section \<open>Properties of the providers\<close>

lemma complete_loop_backoff:
  assumes "\<forall>i. a \<le> i \<and> i < a + k \<longrightarrow>
      (\<exists>r. b i = Response r \<and> status_code r \<noteq> 200 \<and> err r i = Retry (2 ^ i))"
    and "b (a + k) = Response r" and "status_code r = 200" and "http_calls s = a"
  shows "complete_loop ok err rc b [a ..< Suc (a + k)] s
         = (ok r, s\<lparr>http_calls := Suc (a + k), sleeps := sleeps s @ map (\<lambda>i. 2 ^ i) [a ..< a + k]\<rparr>)"
  using assms
proof (induction k arbitrary: a s)
  case 0
  then show ?case by simp
next
  case (Suc k)
  from Suc.prems(1) obtain r0 where r0: "b a = Response r0" "status_code r0 \<noteq> 200"
      "err r0 a = Retry (2 ^ a)"
    by (metis add_Suc_right le_refl less_add_Suc1) 
  let ?s = "s\<lparr>http_calls := http_calls s + 1, sleeps := sleeps s @ [2 ^ a]\<rparr>"
  have up: "[a ..< Suc (a + Suc k)] = a # [Suc a ..< Suc (Suc a + k)]"
    by (simp add: upt_conv_Cons)
  have step: "complete_loop ok err rc b [a ..< Suc (a + Suc k)] s
      = complete_loop ok err rc b [Suc a ..< Suc (Suc a + k)] ?s"
    unfolding up using r0 Suc.prems(4) by simp
  have h1: "\<forall>i. Suc a \<le> i \<and> i < Suc a + k \<longrightarrow>
      (\<exists>r. b i = Response r \<and> status_code r \<noteq> 200 \<and> err r i = Retry (2 ^ i))"
    using Suc.prems(1) by simp
  have h2: "b (Suc a + k) = Response r" using Suc.prems(2) by simp
  have h4: "http_calls ?s = Suc a" using Suc.prems(4) by simp
  have "complete_loop ok err rc b [Suc a ..< Suc (Suc a + k)] ?s
      = (ok r, ?s\<lparr>http_calls := Suc (Suc a + k),
                   sleeps := sleeps ?s @ map (\<lambda>i. 2 ^ i) [Suc a ..< Suc a + k]\<rparr>)"
    by (rule Suc.IH[OF h1 h2 Suc.prems(3) h4])
  moreover have "[a ..< a + Suc k] = a # [Suc a ..< Suc a + k]"
    by (simp add: upt_conv_Cons)
  ultimately show ?case using step by simp
qed

lemma complete_loop_all_429:
  "\<forall>i. http_calls s \<le> i \<and> i < http_calls s + length xs \<longrightarrow> is_429 (b i)
   \<Longrightarrow> \<exists>e. fst (complete_loop ok err rc b xs s) = Inl e"
proof (induction xs arbitrary: s)
  case Nil
  then show ?case by simp
next
  case (Cons x xs)
  from Cons.prems have "is_429 (b (http_calls s))" by simp
  then obtain r where r: "b (http_calls s) = Response r" "status_code r = 429"
    by (cases "b (http_calls s)") (auto simp: is_429_def)
  show ?case
  proof (cases "err r x")
    case (Retry secs)
    let ?s = "s\<lparr>http_calls := http_calls s + 1, sleeps := sleeps s @ [secs]\<rparr>"
    have "\<forall>i. http_calls ?s \<le> i \<and> i < http_calls ?s + length xs \<longrightarrow> is_429 (b i)"
      using Cons.prems by simp
    from Cons.IH[OF this] show ?thesis using r Retry by simp
  next
    case (Raise e)
    then show ?thesis using r by simp
  qed
qed

lemma readable_429_retry:
  assumes "readable_429 out" "v \<noteq> LocalProvider"
  shows "\<exists>r. out = Response r \<and> status_code r \<noteq> 200 \<and> variant_error v r i = Retry (2 ^ i)"
proof -
  from assms(1) obtain r where r: "out = Response r" "status_code r = 429"
    by (auto simp: readable_429_def split: http_outcome.splits)
  have "variant_error v r i = Retry (2 ^ i)"
    using assms r by (cases v)
      (auto simp: readable_429_def openai_error_def anthropic_error_def
          split: option.splits sum.splits)
  then show ?thesis using r by simp
qed

lemma pow2_increasing: "sorted_wrt (<) (map (\<lambda>a. (2::nat) ^ a) [0 ..< n])"
  by (induction n) (auto simp: sorted_wrt_append)

text \<open>
  C5 (as amended). With \<open>retry_count \<ge> 1\<close>: for the OpenAI and Anthropic variants, when
  the first \<open>retry_count - 1\<close> calls return 429 with a readable error body and the last
  returns 200 with a body that holds a completion, \<open>complete\<close> issues exactly
  \<open>retry_count\<close> calls, sleeps \<open>2 ^ attempt\<close> seconds after each 429 (strictly increasing)
  and returns the completion; for every variant, when all \<open>retry_count\<close> calls return
  429, \<open>complete\<close> raises; the local variant raises on the first 429, without a retry.
\<close>

theorem C5_backoff_amended:
  assumes "1 \<le> retry_count cfg"
  shows "(v \<noteq> LocalProvider
          \<and> (\<forall>i < nat (retry_count cfg) - 1. readable_429 (b i))
          \<and> b (nat (retry_count cfg) - 1) = Response r \<and> status_code r = 200
          \<and> variant_ok v cfg r = Inr c
        \<longrightarrow> complete v cfg b
              = (Inr c, \<lparr>http_calls = nat (retry_count cfg),
                         sleeps = map (\<lambda>a. 2 ^ a) [0 ..< nat (retry_count cfg) - 1]\<rparr>)
            \<and> sorted_wrt (<) (sleeps (snd (complete v cfg b))))
       \<and> ((\<forall>i < nat (retry_count cfg). is_429 (b i))
            \<longrightarrow> (\<exists>e. fst (complete v cfg b) = Inl e))
       \<and> (v = LocalProvider \<and> b 0 = Response r' \<and> status_code r' = 429
            \<longrightarrow> complete v cfg b
                = (Inl (ExceptionF ''Local API error: '' (JInt 429)),
                   \<lparr>http_calls = 1, sleeps = []\<rparr>))"
proof (intro conjI impI)
  obtain k where k: "nat (retry_count cfg) = Suc k"
    using assms by (cases "nat (retry_count cfg)") auto
  {
    assume h: "v \<noteq> LocalProvider
          \<and> (\<forall>i < nat (retry_count cfg) - 1. readable_429 (b i))
          \<and> b (nat (retry_count cfg) - 1) = Response r \<and> status_code r = 200
          \<and> variant_ok v cfg r = Inr c"
    have retry: "\<forall>i. 0 \<le> i \<and> i < 0 + k \<longrightarrow>
        (\<exists>r. b i = Response r \<and> status_code r \<noteq> 200 \<and> variant_error v r i = Retry (2 ^ i))"
      using h k readable_429_retry by simp
    have last: "b (0 + k) = Response r" using h k by simp
    have "complete_loop (variant_ok v cfg) (variant_error v) (retry_count cfg) b
            [0 ..< Suc (0 + k)] \<lparr>http_calls = 0, sleeps = []\<rparr>
          = (variant_ok v cfg r, \<lparr>http_calls = 0, sleeps = []\<rparr>
               \<lparr>http_calls := Suc (0 + k),
                sleeps := sleeps \<lparr>http_calls = 0, sleeps = []\<rparr> @ map (\<lambda>i. 2 ^ i) [0 ..< 0 + k]\<rparr>)"
      by (rule complete_loop_backoff[OF retry last]) (use h in simp_all)
    then show eq: "complete v cfg b
              = (Inr c, \<lparr>http_calls = nat (retry_count cfg),
                         sleeps = map (\<lambda>a. 2 ^ a) [0 ..< nat (retry_count cfg) - 1]\<rparr>)"
      using h k by (simp add: complete_def)
    show "sorted_wrt (<) (sleeps (snd (complete v cfg b)))"
      unfolding eq using pow2_increasing by simp
  }
  {
    assume "\<forall>i < nat (retry_count cfg). is_429 (b i)"
    then have "\<forall>i. http_calls \<lparr>http_calls = 0, sleeps = []\<rparr> \<le> i
        \<and> i < http_calls \<lparr>http_calls = 0, sleeps = []\<rparr> + length [0 ..< nat (retry_count cfg)]
        \<longrightarrow> is_429 (b i)"
      by simp
    from complete_loop_all_429[OF this]
    show "\<exists>e. fst (complete v cfg b) = Inl e" by (simp add: complete_def)
  }
  {
    assume "v = LocalProvider \<and> b 0 = Response r' \<and> status_code r' = 429"
    then show "complete v cfg b
                = (Inl (ExceptionF ''Local API error: '' (JInt 429)),
                   \<lparr>http_calls = 1, sleeps = []\<rparr>)"
      using k by (simp add: complete_def upt_conv_Cons local_error_def del: upt_Suc)
  }
qed

lemma openai_ok_chat_success: "openai_ok (default_config OPENAI) chat_success = Inr (hi_completion ''gpt-3.5-turbo'')"
  by (simp add: openai_ok_def chat_success_def default_config_def hi_completion_def str_def model_or_def)

lemma readable_429_rate_limited: "readable_429 (Response rate_limited)"
  by (simp add: readable_429_def rate_limited_def str_def)

theorem C5_backoff_amended_witness:
  "1 \<le> retry_count (default_config OPENAI)
   \<and> OpenAIProvider \<noteq> LocalProvider
   \<and> nat (retry_count (default_config OPENAI)) = 3
   \<and> readable_429 (limited_then_ok 2 0) \<and> readable_429 (limited_then_ok 2 1)
   \<and> limited_then_ok 2 2 = Response chat_success
   \<and> status_code chat_success = 200
   \<and> variant_ok OpenAIProvider (default_config OPENAI) chat_success
       = Inr (hi_completion ''gpt-3.5-turbo'')
   \<and> complete OpenAIProvider (default_config OPENAI) (limited_then_ok 2)
       = (Inr (hi_completion ''gpt-3.5-turbo''), \<lparr>http_calls = 3, sleeps = [1, 2]\<rparr>)
   \<and> is_429 (limited_then_ok 3 0) \<and> is_429 (limited_then_ok 3 1) \<and> is_429 (limited_then_ok 3 2)
   \<and> (\<exists>e. fst (complete OpenAIProvider (default_config OPENAI) (limited_then_ok 3)) = Inl e)
   \<and> limited_then_ok 2 0 = Response rate_limited \<and> status_code rate_limited = 429
   \<and> complete LocalProvider (default_config LOCAL) (limited_then_ok 2)
       = (Inl (ExceptionF ''Local API error: '' (JInt 429)), \<lparr>http_calls = 1, sleeps = []\<rparr>)"
proof -
  have rc: "1 \<le> retry_count (default_config OPENAI)" "1 \<le> retry_count (default_config LOCAL)"
    by (simp_all add: default_config_def)
  have n: "nat (retry_count (default_config OPENAI)) = 3"
    by (simp add: default_config_def)
  have h1: "\<forall>i < nat (retry_count (default_config OPENAI)) - 1. readable_429 (limited_then_ok 2 i)"
    by (simp add: n limited_then_ok_def readable_429_rate_limited)
  have h2: "limited_then_ok 2 (nat (retry_count (default_config OPENAI)) - 1) = Response chat_success"
    by (simp add: n limited_then_ok_def)
  have h3: "status_code chat_success = 200" by (simp add: chat_success_def)
  have h4: "variant_ok OpenAIProvider (default_config OPENAI) chat_success
       = Inr (hi_completion ''gpt-3.5-turbo'')"
    by (simp add: openai_ok_chat_success)
  have h5: "\<forall>i < nat (retry_count (default_config OPENAI)). is_429 (limited_then_ok 3 i)"
    by (simp add: n limited_then_ok_def is_429_def rate_limited_def)
  have h6: "limited_then_ok 2 0 = Response rate_limited" "status_code rate_limited = 429"
    by (simp_all add: limited_then_ok_def rate_limited_def)
  have s: "map (\<lambda>a. (2::nat) ^ a) [0 ..< 2] = [1, 2]"
    by (simp add: upt_conv_Cons)
  from C5_backoff_amended [OF rc(1), where v = OpenAIProvider and b = "limited_then_ok 2"
      and r = chat_success and c = "hi_completion ''gpt-3.5-turbo''"] h1 h2 h3 h4
  have a: "complete OpenAIProvider (default_config OPENAI) (limited_then_ok 2)
       = (Inr (hi_completion ''gpt-3.5-turbo''), \<lparr>http_calls = 3, sleeps = [1, 2]\<rparr>)"
    by (simp add: n s)
  from C5_backoff_amended [OF rc(1), where v = OpenAIProvider and b = "limited_then_ok 3"] h5
  have b: "\<exists>e. fst (complete OpenAIProvider (default_config OPENAI) (limited_then_ok 3)) = Inl e"
    by simp
  from C5_backoff_amended [OF rc(2), where v = LocalProvider and b = "limited_then_ok 2"
      and r' = rate_limited] h6
  have c: "complete LocalProvider (default_config LOCAL) (limited_then_ok 2)
       = (Inl (ExceptionF ''Local API error: '' (JInt 429)), \<lparr>http_calls = 1, sleeps = []\<rparr>)"
    by simp
  have i: "readable_429 (limited_then_ok 2 0)" "readable_429 (limited_then_ok 2 1)"
    "limited_then_ok 2 2 = Response chat_success"
    by (simp_all add: limited_then_ok_def readable_429_rate_limited)
  have j: "is_429 (limited_then_ok 3 0)" "is_429 (limited_then_ok 3 1)" "is_429 (limited_then_ok 3 2)"
    by (simp_all add: limited_then_ok_def is_429_def rate_limited_def)
  from rc n i j h3 h4 h6 a b c show ?thesis by simp
qed

text \<open>
  C5 as stated fails for the local variant: with two rate-limited responses followed by
  a success and three attempts allowed, \<open>LocalProvider.complete\<close> raises after one call.
\<close>

theorem C5_backoff_counterexample:
  "(1::int) \<le> retry_count (default_config LOCAL)
   \<and> is_429 (limited_then_ok 2 0) \<and> is_429 (limited_then_ok 2 1)
   \<and> limited_then_ok 2 2 = Response chat_success \<and> status_code chat_success = 200
   \<and> fst (complete LocalProvider (default_config LOCAL) (limited_then_ok 2))
       = Inl (ExceptionF ''Local API error: '' (JInt 429))
   \<and> http_calls (snd (complete LocalProvider (default_config LOCAL) (limited_then_ok 2))) = 1"
  by (simp add: complete_def default_config_def limited_then_ok_def rate_limited_def
      chat_success_def is_429_def local_error_def upt_conv_Cons)

section \<open>Properties of the ProviderManager\<close>

lemma configured_manager:
  "provider_type a \<noteq> provider_type f \<Longrightarrow>
   (case set_active_provider (register_provider (register_provider new_manager a) f)
           (provider_type a) of
      Inl e \<Rightarrow> Inl e | Inr m \<Rightarrow> set_fallback_provider m (provider_type f))
   = Inr (manager_of a (Some f))"
  by (simp add: set_active_provider_def set_fallback_provider_def register_provider_def
      new_manager_def manager_of_def)

text \<open>
  C1 (as amended). When the active provider's \<open>complete\<close> raises and a fallback is
  configured and registered, \<open>complete_with_fallback\<close> invokes the fallback and returns
  what it returns: its completion, or, when the fallback raises too, the fallback's
  error. When the active provider raises and no fallback is usable, the active
  provider's error is raised. When no active provider is configured, a \<open>ValueError\<close> is
  raised and no provider is invoked.
\<close>

theorem C1_fallback_amended:
  "(get_active_provider m = Some a \<and> p_complete a messages stream = Inl e
      \<and> fallback_provider m = Some ft \<and> providers m ft = Some f
    \<longrightarrow> complete_with_fallback m messages stream
        = (p_complete f messages stream, [provider_type a, provider_type f]))
   \<and> (get_active_provider m = Some a \<and> p_complete a messages stream = Inl e
      \<and> (fallback_provider m = None \<or> (fallback_provider m = Some ft \<and> providers m ft = None))
    \<longrightarrow> complete_with_fallback m messages stream = (Inl e, [provider_type a]))
   \<and> (get_active_provider m = None
    \<longrightarrow> complete_with_fallback m messages stream
        = (Inl (ValueError ''No active provider configured''), []))"
  by (auto simp: complete_with_fallback_def)

theorem C1_fallback_amended_witness:
  "get_active_provider (manager_of (fixed_provider OPENAI (Inl (Exception ''active down'')) ([], None))
       (Some (fixed_provider LOCAL (Inr (hi_completion ''llama3'')) ([], None))))
     = Some (fixed_provider OPENAI (Inl (Exception ''active down'')) ([], None))
   \<and> complete_with_fallback (manager_of (fixed_provider OPENAI (Inl (Exception ''active down'')) ([], None))
       (Some (fixed_provider LOCAL (Inr (hi_completion ''llama3'')) ([], None)))) [] False
     = (Inr (hi_completion ''llama3''), [OPENAI, LOCAL])
   \<and> fallback_provider (manager_of (fixed_provider OPENAI (Inl (Exception ''active down'')) ([], None)) None)
     = None
   \<and> complete_with_fallback (manager_of (fixed_provider OPENAI (Inl (Exception ''active down'')) ([], None)) None)
       [] False
     = (Inl (Exception ''active down''), [OPENAI])
   \<and> get_active_provider new_manager = None
   \<and> complete_with_fallback new_manager [] False
     = (Inl (ValueError ''No active provider configured''), [])"
proof -
  let ?a = "fixed_provider OPENAI (Inl (Exception ''active down'')) ([], None)"
  let ?f = "fixed_provider LOCAL (Inr (hi_completion ''llama3'')) ([], None)"
  have g1: "get_active_provider (manager_of ?a (Some ?f)) = Some ?a"
    and g2: "get_active_provider (manager_of ?a None) = Some ?a"
    and g3: "get_active_provider new_manager = None"
    by (simp_all add: get_active_provider_def manager_of_def fixed_provider_def new_manager_def)
  have e: "p_complete ?a [] False = Inl (Exception ''active down'')"
    and ok: "p_complete ?f [] False = Inr (hi_completion ''llama3'')"
    and t: "provider_type ?a = OPENAI" "provider_type ?f = LOCAL"
    by (simp_all add: fixed_provider_def)
  have f1: "fallback_provider (manager_of ?a (Some ?f)) = Some LOCAL"
    "providers (manager_of ?a (Some ?f)) LOCAL = Some ?f"
    and f2: "fallback_provider (manager_of ?a None) = None"
    by (simp_all add: manager_of_def fixed_provider_def)
  from C1_fallback_amended [of "manager_of ?a (Some ?f)" ?a "[]" False
      "Exception ''active down''" LOCAL ?f] g1 e f1 ok t
  have r1: "complete_with_fallback (manager_of ?a (Some ?f)) [] False
      = (Inr (hi_completion ''llama3''), [OPENAI, LOCAL])"
    by simp
  from C1_fallback_amended [of "manager_of ?a None" ?a "[]" False
      "Exception ''active down''" LOCAL ?f] g2 e f2 t
  have r2: "complete_with_fallback (manager_of ?a None) [] False
      = (Inl (Exception ''active down''), [OPENAI])"
    by simp
  from C1_fallback_amended [of new_manager ?a "[]" False] g3
  have r3: "complete_with_fallback new_manager [] False
      = (Inl (ValueError ''No active provider configured''), [])"
    by simp
  from g1 g3 f2 r1 r2 r3 show ?thesis by simp
qed

text \<open>
  C1 as stated fails: when the active provider and the fallback both raise, the error
  that reaches the caller is the fallback's, not the active provider's.
\<close>

theorem C1_fallback_counterexample:
  "p_complete (fixed_provider OPENAI (Inl (Exception ''active down'')) ([], None)) [] False
     = Inl (Exception ''active down'')
   \<and> p_complete (fixed_provider LOCAL (Inl (Exception ''fallback down'')) ([], None)) [] False
     = Inl (Exception ''fallback down'')
   \<and> fst (complete_with_fallback
        (manager_of (fixed_provider OPENAI (Inl (Exception ''active down'')) ([], None))
           (Some (fixed_provider LOCAL (Inl (Exception ''fallback down'')) ([], None))))
        [] False)
     = Inl (Exception ''fallback down'')
   \<and> fst (complete_with_fallback
        (manager_of (fixed_provider OPENAI (Inl (Exception ''active down'')) ([], None))
           (Some (fixed_provider LOCAL (Inl (Exception ''fallback down'')) ([], None))))
        [] False)
     \<noteq> Inl (Exception ''active down'')"
  by (simp add: complete_with_fallback_def get_active_provider_def manager_of_def
      fixed_provider_def)

text \<open>
  C9. When the stream of the active provider raises after some chunks and no fallback
  is configured, or the configured fallback kind is not registered,
  \<open>stream_with_fallback\<close> yields those chunks and ends without an error; the caller sees
  what it would see from an active stream that ended by itself after the same chunks.
\<close>

theorem C9_stream_failure_swallowed:
  assumes "get_active_provider m = Some a"
    and "stream_complete a messages = (chunks, Some e)"
    and "fallback_provider m = None \<or> (\<exists>ft. fallback_provider m = Some ft \<and> providers m ft = None)"
    and "get_active_provider m' = Some a'"
    and "stream_complete a' messages = (chunks, None)"
  shows "stream_with_fallback m messages = ((chunks, None), [provider_type a])
       \<and> fst (stream_with_fallback m' messages) = fst (stream_with_fallback m messages)"
  using assms by (auto simp: stream_with_fallback_def)

theorem C9_stream_failure_swallowed_witness:
  "get_active_provider (manager_of (fixed_provider OPENAI (Inl (Exception ''down''))
       ([str ''Hel''], Some (Exception ''connection lost''))) None)
     = Some (fixed_provider OPENAI (Inl (Exception ''down''))
       ([str ''Hel''], Some (Exception ''connection lost'')))
   \<and> fallback_provider (manager_of (fixed_provider OPENAI (Inl (Exception ''down''))
       ([str ''Hel''], Some (Exception ''connection lost''))) None) = None
   \<and> stream_with_fallback (manager_of (fixed_provider OPENAI (Inl (Exception ''down''))
       ([str ''Hel''], Some (Exception ''connection lost''))) None) []
     = (([str ''Hel''], None), [OPENAI])
   \<and> fst (stream_with_fallback (manager_of (fixed_provider OPENAI (Inl (Exception ''down''))
       ([str ''Hel''], None)) None) [])
     = ([str ''Hel''], None)"
proof -
  let ?a = "fixed_provider OPENAI (Inl (Exception ''down''))
       ([str ''Hel''], Some (Exception ''connection lost''))"
  let ?a' = "fixed_provider OPENAI (Inl (Exception ''down'')) ([str ''Hel''], None)"
  have g: "get_active_provider (manager_of ?a None) = Some ?a"
    "get_active_provider (manager_of ?a' None) = Some ?a'"
    by (simp_all add: get_active_provider_def manager_of_def fixed_provider_def)
  have s: "stream_complete ?a [] = ([str ''Hel''], Some (Exception ''connection lost''))"
    "stream_complete ?a' [] = ([str ''Hel''], None)"
    by (simp_all add: fixed_provider_def)
  have f: "fallback_provider (manager_of ?a None) = None
      \<or> (\<exists>ft. fallback_provider (manager_of ?a None) = Some ft
            \<and> providers (manager_of ?a None) ft = None)"
    by (simp add: manager_of_def)
  have t: "provider_type ?a = OPENAI" by (simp add: fixed_provider_def)
  from C9_stream_failure_swallowed [OF g(1) s(1) f g(2) s(2)] t
  have "stream_with_fallback (manager_of ?a None) [] = (([str ''Hel''], None), [OPENAI])
      \<and> fst (stream_with_fallback (manager_of ?a' None) []) = ([str ''Hel''], None)"
    by simp
  moreover have "fallback_provider (manager_of ?a None) = None"
    by (simp add: manager_of_def)
  ultimately show ?thesis using g(1) by simp
qed

section \<open>Properties of StrategyChain\<close>

lemma emit_deps_inv:
  "emit_deps ds (chain, set chain) = (chain', P') \<Longrightarrow> distinct chain \<Longrightarrow>
   P' = set chain' \<and> distinct chain' \<and> set chain' = set chain \<union> set ds \<and>
   (\<exists>zs. chain' = chain @ zs \<and> set zs \<subseteq> set ds)"
proof (induction ds arbitrary: chain)
  case Nil
  then show ?case by auto
next
  case (Cons d ds)
  show ?case
  proof (cases "d \<in> set chain")
    case True
    with Cons.prems have "emit_deps ds (chain, set chain) = (chain', P')" by simp
    from Cons.IH[OF this Cons.prems(2)] True show ?thesis by auto
  next
    case False
    with Cons.prems have e: "emit_deps ds (chain @ [d], set (chain @ [d])) = (chain', P')" by simp
    have "distinct (chain @ [d])" using False Cons.prems(2) by simp
    from Cons.IH[OF e this] show ?thesis by auto
  qed
qed

lemma before_append: "k \<in> set xs \<Longrightarrow> before d k (xs @ ys) = before d k xs"
  by (simp add: before_def takeWhile_append1) 

lemma before_snoc: "k \<notin> set xs \<Longrightarrow> before d k (xs @ [k]) = (d \<in> set xs)"
proof -
  assume "k \<notin> set xs"
  then have "takeWhile (\<lambda>x. x \<noteq> k) (xs @ [k]) = xs" by (induction xs) auto
  then show ?thesis by (simp add: before_def)
qed

lemma flat_no_self: "flat_deps D \<Longrightarrow> no_self_dep D"
  unfolding flat_deps_def no_self_dep_def by (metis empty_iff empty_set)

lemma emit_deps_sets:
  "emit_deps ds (chain, set chain) = (chain', P')
   \<Longrightarrow> P' = set chain' \<and> set chain' = set chain \<union> set ds
       \<and> (\<exists>zs. chain' = chain @ zs \<and> set zs \<subseteq> set ds)"
proof (induction ds arbitrary: chain)
  case Nil
  then show ?case by auto
next
  case (Cons d ds)
  show ?case
  proof (cases "d \<in> set chain")
    case True
    with Cons.prems have "emit_deps ds (chain, set chain) = (chain', P')" by simp
    from Cons.IH[OF this] True show ?thesis by auto
  next
    case False
    with Cons.prems have "emit_deps ds (chain @ [d], set (chain @ [d])) = (chain', P')" by simp
    from Cons.IH[OF this] show ?thesis by auto
  qed
qed

lemma build_loop_extends:
  "build_loop D ms (chain, set chain) = (chain', P')
   \<Longrightarrow> P' = set chain' \<and> (\<exists>zs. chain' = chain @ zs)"
proof (induction ms arbitrary: chain)
  case Nil
  then show ?case by auto
next
  case (Cons m ms)
  let ?k = "strategy_type m"
  show ?case
  proof (cases "?k \<in> set chain")
    case True
    with Cons.prems have "build_loop D ms (chain, set chain) = (chain', P')" by simp
    from Cons.IH[OF this] show ?thesis .
  next
    case False
    obtain c1 P1 where e: "emit_deps (deps_get D ?k) (chain, set chain) = (c1, P1)"
      by (cases "emit_deps (deps_get D ?k) (chain, set chain)")
    from emit_deps_sets[OF e] obtain zs where P1: "P1 = set c1" and zs: "c1 = chain @ zs"
      by auto
    have "build_loop D ms (c1 @ [?k], set (c1 @ [?k])) = (chain', P')"
      using Cons.prems False e P1 by simp
    from Cons.IH[OF this] zs show ?thesis by auto
  qed
qed

lemma build_loop_own_distinct:
  "\<forall>k \<in> set (own_kinds D ms (set chain)). k \<notin> set (deps_get D k) \<Longrightarrow> distinct chain
   \<Longrightarrow> build_loop D ms (chain, set chain) = (chain', P') \<Longrightarrow> distinct chain'"
proof (induction ms arbitrary: chain)
  case Nil
  then show ?case by auto
next
  case (Cons m ms)
  let ?k = "strategy_type m"
  show ?case
  proof (cases "?k \<in> set chain")
    case True
    with Cons.prems(3) have b: "build_loop D ms (chain, set chain) = (chain', P')" by simp
    have "\<forall>k \<in> set (own_kinds D ms (set chain)). k \<notin> set (deps_get D k)"
      using Cons.prems(1) True by simp
    from Cons.IH[OF this Cons.prems(2) b] show ?thesis .
  next
    case False
    obtain c1 P1 where e: "emit_deps (deps_get D ?k) (chain, set chain) = (c1, P1)"
      by (cases "emit_deps (deps_get D ?k) (chain, set chain)")
    from emit_deps_inv[OF e Cons.prems(2)]
    have P1: "P1 = set c1" and d1: "distinct c1"
      and s1: "set c1 = set chain \<union> set (deps_get D ?k)"
      by auto
    have s2: "set (c1 @ [?k]) = insert ?k (set chain \<union> set (deps_get D ?k))"
      using s1 by simp
    have own: "own_kinds D (m # ms) (set chain) = ?k # own_kinds D ms (set (c1 @ [?k]))"
      using False s2 by simp
    have "?k \<notin> set (deps_get D ?k)" using Cons.prems(1) own by simp
    then have d2: "distinct (c1 @ [?k])" using d1 s1 False by simp
    have rest: "\<forall>k \<in> set (own_kinds D ms (set (c1 @ [?k]))). k \<notin> set (deps_get D k)"
      using Cons.prems(1) own by simp
    have "build_loop D ms (c1 @ [?k], set (c1 @ [?k])) = (chain', P')"
      using Cons.prems(3) False e P1 by simp
    from Cons.IH[OF rest d2 this] show ?thesis .
  qed
qed

lemma build_loop_own_order:
  "build_loop D ms (chain, set chain) = (chain', P')
   \<Longrightarrow> k \<in> set (own_kinds D ms (set chain)) \<Longrightarrow> k \<notin> set (deps_get D k)
   \<Longrightarrow> d \<in> set (deps_get D k) \<Longrightarrow> before d k chain'"
proof (induction ms arbitrary: chain)
  case Nil
  then show ?case by simp
next
  case (Cons m ms)
  let ?k = "strategy_type m"
  show ?case
  proof (cases "?k \<in> set chain")
    case True
    with Cons.prems(1) have b: "build_loop D ms (chain, set chain) = (chain', P')" by simp
    have "k \<in> set (own_kinds D ms (set chain))" using Cons.prems(2) True by simp
    from Cons.IH[OF b this Cons.prems(3,4)] show ?thesis .
  next
    case False
    obtain c1 P1 where e: "emit_deps (deps_get D ?k) (chain, set chain) = (c1, P1)"
      by (cases "emit_deps (deps_get D ?k) (chain, set chain)")
    from emit_deps_sets[OF e]
    have P1: "P1 = set c1" and s1: "set c1 = set chain \<union> set (deps_get D ?k)"
      by auto
    have s2: "set (c1 @ [?k]) = insert ?k (set chain \<union> set (deps_get D ?k))"
      using s1 by simp
    have own: "own_kinds D (m # ms) (set chain) = ?k # own_kinds D ms (set (c1 @ [?k]))"
      using False s2 by simp
    have b: "build_loop D ms (c1 @ [?k], set (c1 @ [?k])) = (chain', P')"
      using Cons.prems(1) False e P1 by simp
    show ?thesis
    proof (cases "k = ?k")
      case True
      have "?k \<notin> set c1" using s1 False Cons.prems(3) True by simp
      then have "before d ?k (c1 @ [?k])"
        using before_snoc[of ?k c1 d] s1 Cons.prems(4) True by simp
      moreover from build_loop_extends[OF b] obtain zs where "chain' = (c1 @ [?k]) @ zs"
        by auto
      ultimately show ?thesis using True before_append[of ?k "c1 @ [?k]" d zs] by simp
    next
      case False
      then have "k \<in> set (own_kinds D ms (set (c1 @ [?k])))"
        using Cons.prems(2) own by simp
      from Cons.IH[OF b this Cons.prems(3,4)] show ?thesis .
    qed
  qed
qed

lemma build_loop_kinds:
  "build_loop D ms (chain, set chain) = (chain', P')
   \<Longrightarrow> set chain' \<subseteq> set chain \<union> set (own_kinds D ms (set chain))
        \<union> (\<Union>m \<in> set ms. set (deps_get D (strategy_type m)))"
proof (induction ms arbitrary: chain)
  case Nil
  then show ?case by simp
next
  case (Cons m ms)
  let ?k = "strategy_type m"
  show ?case
  proof (cases "?k \<in> set chain")
    case True
    with Cons.prems have b: "build_loop D ms (chain, set chain) = (chain', P')" by simp
    from Cons.IH[OF b] True show ?thesis by auto
  next
    case False
    obtain c1 P1 where e: "emit_deps (deps_get D ?k) (chain, set chain) = (c1, P1)"
      by (cases "emit_deps (deps_get D ?k) (chain, set chain)")
    from emit_deps_sets[OF e]
    have P1: "P1 = set c1" and s1: "set c1 = set chain \<union> set (deps_get D ?k)"
      by auto
    have s2: "set (c1 @ [?k]) = insert ?k (set chain \<union> set (deps_get D ?k))"
      using s1 by simp
    have own: "own_kinds D (m # ms) (set chain) = ?k # own_kinds D ms (set (c1 @ [?k]))"
      using False s2 by simp
    have b: "build_loop D ms (c1 @ [?k], set (c1 @ [?k])) = (chain', P')"
      using Cons.prems False e P1 by simp
    from Cons.IH[OF b] show ?thesis unfolding own s2 by auto
  qed
qed

lemma build_loop_own_duplicate:
  "build_loop D ms (chain, set chain) = (chain', P')
   \<Longrightarrow> k \<in> set (own_kinds D ms (set chain)) \<Longrightarrow> k \<in> set (deps_get D k)
   \<Longrightarrow> \<not> distinct chain'"
proof (induction ms arbitrary: chain)
  case Nil
  then show ?case by simp
next
  case (Cons m ms)
  let ?k = "strategy_type m"
  show ?case
  proof (cases "?k \<in> set chain")
    case True
    with Cons.prems(1) have b: "build_loop D ms (chain, set chain) = (chain', P')" by simp
    have "k \<in> set (own_kinds D ms (set chain))" using Cons.prems(2) True by simp
    from Cons.IH[OF b this Cons.prems(3)] show ?thesis .
  next
    case False
    obtain c1 P1 where e: "emit_deps (deps_get D ?k) (chain, set chain) = (c1, P1)"
      by (cases "emit_deps (deps_get D ?k) (chain, set chain)")
    from emit_deps_sets[OF e]
    have P1: "P1 = set c1" and s1: "set c1 = set chain \<union> set (deps_get D ?k)"
      by auto
    have s2: "set (c1 @ [?k]) = insert ?k (set chain \<union> set (deps_get D ?k))"
      using s1 by simp
    have own: "own_kinds D (m # ms) (set chain) = ?k # own_kinds D ms (set (c1 @ [?k]))"
      using False s2 by simp
    have b: "build_loop D ms (c1 @ [?k], set (c1 @ [?k])) = (chain', P')"
      using Cons.prems(1) False e P1 by simp
    show ?thesis
    proof (cases "k = ?k")
      case True
      then have "\<not> distinct (c1 @ [?k])" using s1 Cons.prems(3) by simp
      moreover from build_loop_extends[OF b] obtain zs where "chain' = (c1 @ [?k]) @ zs"
        by auto
      ultimately show ?thesis by (metis distinct_append)
    next
      case False
      then have "k \<in> set (own_kinds D ms (set (c1 @ [?k])))"
        using Cons.prems(2) own by simp
      from Cons.IH[OF b this Cons.prems(3)] show ?thesis .
    qed
  qed
qed

lemma own_kinds_matched: "set (own_kinds D ms P) \<subseteq> strategy_type ` set ms"
  by (induction ms arbitrary: P) auto

lemma set_sorted_desc: "set (sorted_desc f xs) = set xs"
proof -
  have ins: "set (insert_desc f x ys) = insert x (set ys)" for x ys
    by (induction ys) auto
  have "set (foldl (\<lambda>acc x. insert_desc f x acc) acc xs) = set acc \<union> set xs" for acc
    by (induction xs arbitrary: acc) (auto simp: ins)
  then show ?thesis by (simp add: sorted_desc_def)
qed

text \<open>
  C3 (as amended). The chain of \<open>build_chain\<close> holds each kind at most once exactly when
  no kind that is emitted for its own match is declared as a dependency of itself, so
  in particular when no kind at all is. Every kind that is emitted for its own match,
  and is not its own dependency, has each of its declared dependencies before it in the
  chain; so has every kind of the chain that is not a declared dependency of a matched
  kind, and so has every kind of the chain when no declared dependency has dependencies
  of its own.
\<close>

theorem C3_build_chain_amended:
  "(distinct (build_chain D matches)
      \<longleftrightarrow> (\<forall>k \<in> set (own_kinds D (sorted_matches matches) {}). k \<notin> set (deps_get D k)))
   \<and> (no_self_dep D \<longrightarrow> distinct (build_chain D matches))
   \<and> (\<forall>k \<in> set (own_kinds D (sorted_matches matches) {}). k \<notin> set (deps_get D k)
      \<longrightarrow> (\<forall>d \<in> set (deps_get D k). before d k (build_chain D matches)))
   \<and> (\<forall>k \<in> set (build_chain D matches).
        (\<forall>m \<in> set matches. k \<notin> set (deps_get D (strategy_type m)))
      \<longrightarrow> (\<forall>d \<in> set (deps_get D k). before d k (build_chain D matches)))
   \<and> (flat_deps D \<longrightarrow> distinct (build_chain D matches)
          \<and> deps_first D (build_chain D matches))"
proof -
  let ?ms = "sorted_matches matches"
  obtain c P where b: "build_loop D ?ms ([], set []) = (c, P)"
    by (cases "build_loop D ?ms ([], set [])")
  have nil: "matches = [] \<Longrightarrow> c = []"
    using b by (simp add: sorted_matches_def sorted_desc_def)
  have bc: "build_chain D matches = c"
    using b nil by (cases "matches = []") (simp_all add: build_chain_def sorted_matches_def)
  have own_distinct: "\<forall>k \<in> set (own_kinds D ?ms {}). k \<notin> set (deps_get D k) \<Longrightarrow> distinct c"
    using build_loop_own_distinct[OF _ _ b] by simp
  have own_duplicate: "\<not> distinct c"
    if "k \<in> set (own_kinds D ?ms {})" "k \<in> set (deps_get D k)" for k
    using build_loop_own_duplicate[OF b _ that(2)] that(1) by simp
  have exact: "distinct c \<longleftrightarrow> (\<forall>k \<in> set (own_kinds D ?ms {}). k \<notin> set (deps_get D k))"
    using own_distinct own_duplicate by blast
  have self_distinct: "no_self_dep D \<Longrightarrow> distinct c"
    using own_distinct by (simp add: no_self_dep_def)
  have own_order: "before d k c"
    if "k \<in> set (own_kinds D ?ms {})" "k \<notin> set (deps_get D k)" "d \<in> set (deps_get D k)" for k d
    using build_loop_own_order[OF b _ that(2,3)] that(1) by simp
  have kinds: "set c \<subseteq> set (own_kinds D ?ms {})
      \<union> (\<Union>m \<in> set matches. set (deps_get D (strategy_type m)))"
    using build_loop_kinds[OF b] by (simp add: sorted_matches_def set_sorted_desc)
  have matched: "set (own_kinds D ?ms {}) \<subseteq> strategy_type ` set matches"
    using own_kinds_matched[of D ?ms "{}"] by (simp add: sorted_matches_def set_sorted_desc)
  have free_order: "before d k c"
    if "k \<in> set c" "\<forall>m \<in> set matches. k \<notin> set (deps_get D (strategy_type m))"
      "d \<in> set (deps_get D k)" for k d
  proof -
    have own: "k \<in> set (own_kinds D ?ms {})" using kinds that(1,2) by auto
    then have "k \<in> strategy_type ` set matches" using matched by auto
    then have "k \<notin> set (deps_get D k)" using that(2) by auto
    from own_order[OF own this that(3)] show ?thesis .
  qed
  have flat_order: "deps_first D c" if f: "flat_deps D"
    unfolding deps_first_def
  proof (intro ballI)
    fix k d assume k: "k \<in> set c" and d: "d \<in> set (deps_get D k)"
    have nonempty: "deps_get D k \<noteq> []" using d by auto
    have "k \<in> set (own_kinds D ?ms {})"
    proof (rule ccontr)
      assume "k \<notin> set (own_kinds D ?ms {})"
      then have "k \<in> (\<Union>m \<in> set matches. set (deps_get D (strategy_type m)))"
        using kinds k by blast
      then obtain m :: StrategyMatch where "k \<in> set (deps_get D (strategy_type m))" by blast
      then have "deps_get D k = []" using f by (auto simp: flat_deps_def)
      then show False using nonempty by simp
    qed
    moreover have "k \<notin> set (deps_get D k)"
      using flat_no_self[OF f] by (simp add: no_self_dep_def)
    ultimately show "before d k c" using own_order d by blast
  qed
  have flat_distinct: "flat_deps D \<Longrightarrow> distinct c"
    using self_distinct flat_no_self by blast
  show ?thesis
    unfolding bc using exact self_distinct own_order free_order flat_order flat_distinct
    by blast
qed

theorem C3_build_chain_amended_witness:
  "own_kinds two_level (sorted_matches [typo_match, expansion_match]) {}
     = [CORRECTION, EXPANSION]
   \<and> deps_get two_level CORRECTION = [TRANSLATION]
   \<and> deps_get two_level EXPANSION = [CORRECTION]
   \<and> no_self_dep two_level
   \<and> build_chain two_level [typo_match, expansion_match] = [TRANSLATION, CORRECTION, EXPANSION]
   \<and> distinct (build_chain two_level [typo_match, expansion_match])
   \<and> before TRANSLATION CORRECTION (build_chain two_level [typo_match, expansion_match])
   \<and> before CORRECTION EXPANSION (build_chain two_level [typo_match, expansion_match])
   \<and> flat_deps (add_dependency Map.empty EXPANSION CORRECTION)
   \<and> distinct (build_chain (add_dependency Map.empty EXPANSION CORRECTION) [expansion_match])
   \<and> deps_first (add_dependency Map.empty EXPANSION CORRECTION)
        (build_chain (add_dependency Map.empty EXPANSION CORRECTION) [expansion_match])
   \<and> build_chain (add_dependency Map.empty EXPANSION CORRECTION) [expansion_match]
       = [CORRECTION, EXPANSION]"
proof -
  let ?ms = "[typo_match, expansion_match]"
  let ?D = "add_dependency Map.empty EXPANSION CORRECTION"
  have o: "own_kinds two_level (sorted_matches ?ms) {} = [CORRECTION, EXPANSION]"
    by (simp add: sorted_matches_def sorted_desc_def two_level_def add_dependency_def
        deps_get_def expansion_match_def typo_match_def)
  have dc: "deps_get two_level CORRECTION = [TRANSLATION]"
    and de: "deps_get two_level EXPANSION = [CORRECTION]"
    by (simp_all add: two_level_def add_dependency_def deps_get_def)
  have n: "no_self_dep two_level"
    by (simp add: no_self_dep_def two_level_def add_dependency_def deps_get_def)
  have r: "build_chain two_level ?ms = [TRANSLATION, CORRECTION, EXPANSION]"
    by (simp add: build_chain_def sorted_desc_def two_level_def add_dependency_def deps_get_def
        expansion_match_def typo_match_def)
  have t: "strategy_type typo_match = CORRECTION" "strategy_type expansion_match = EXPANSION"
    by (simp_all add: typo_match_def expansion_match_def)
  have f: "flat_deps ?D"
    by (simp add: flat_deps_def add_dependency_def deps_get_def)
  have r2: "build_chain ?D [expansion_match] = [CORRECTION, EXPANSION]"
    by (simp add: build_chain_def sorted_desc_def add_dependency_def deps_get_def
        expansion_match_def)
  note a = C3_build_chain_amended [of two_level ?ms]
  from a o dc de have d: "distinct (build_chain two_level ?ms)" by simp
  from a n have d': "distinct (build_chain two_level ?ms)" by blast
  from a o dc de have b1: "before TRANSLATION CORRECTION (build_chain two_level ?ms)"
    by simp
  from a r t dc de have b2: "before CORRECTION EXPANSION (build_chain two_level ?ms)"
    by simp
  from C3_build_chain_amended [of ?D "[expansion_match]"] f
  have fl: "distinct (build_chain ?D [expansion_match])
      \<and> deps_first ?D (build_chain ?D [expansion_match])"
    by blast
  from o dc de n r d b1 b2 f fl r2 show ?thesis by simp
qed

text \<open>
  C3 as stated fails: a kind declared as its own dependency is emitted twice, and the
  dependencies of a kind that is emitted as a dependency are not emitted.
\<close>

theorem C3_build_chain_counterexample:
  "\<not> distinct (build_chain (add_dependency Map.empty CORRECTION CORRECTION) [typo_match])
   \<and> CORRECTION \<in> set (build_chain
        (add_dependency (add_dependency Map.empty EXPANSION CORRECTION) CORRECTION TRANSLATION)
        [expansion_match])
   \<and> TRANSLATION \<in> set (deps_get
        (add_dependency (add_dependency Map.empty EXPANSION CORRECTION) CORRECTION TRANSLATION)
        CORRECTION)
   \<and> TRANSLATION \<notin> set (build_chain
        (add_dependency (add_dependency Map.empty EXPANSION CORRECTION) CORRECTION TRANSLATION)
        [expansion_match])"
  by (simp add: build_chain_def sorted_desc_def add_dependency_def deps_get_def
      expansion_match_def typo_match_def)

lemma execute_loop_completes:
  "list_all (\<lambda>(t, k). \<not> system_exiting (p t k)) (spec_inputs p (running st) ks)
   \<Longrightarrow> fst (execute_loop p ks st) = None
     \<and> running (snd (execute_loop p ks st)) = foldl (spec_step p) (running st) ks"
proof (induction ks arbitrary: st)
  case Nil
  then show ?case by simp
next
  case (Cons k ks)
  show ?case
  proof (cases "p (running st) k")
    case (Returns t)
    let ?st = "st\<lparr>running := t, calls := calls st @ [(running st, k)]\<rparr>"
    have "list_all (\<lambda>(t, k). \<not> system_exiting (p t k)) (spec_inputs p (running ?st) ks)"
      using Cons.prems Returns by (simp add: spec_step_def)
    from Cons.IH[OF this] show ?thesis using Returns by (simp add: spec_step_def)
  next
    case (Raises e)
    let ?st = "st\<lparr>calls := calls st @ [(running st, k)], logged := logged st @ [(k, e)]\<rparr>"
    have "list_all (\<lambda>(t, k). \<not> system_exiting (p t k)) (spec_inputs p (running ?st) ks)"
      using Cons.prems Raises by (simp add: spec_step_def)
    from Cons.IH[OF this] show ?thesis using Raises by (simp add: spec_step_def)
  next
    case (RaisesBase b)
    then show ?thesis using Cons.prems by simp
  qed
qed

lemma execute_loop_aborts:
  "\<not> list_all (\<lambda>(t, k). \<not> system_exiting (p t k)) (spec_inputs p (running st) ks)
   \<Longrightarrow> \<exists>b. fst (execute_loop p ks st) = Some b"
proof (induction ks arbitrary: st)
  case Nil
  then show ?case by simp
next
  case (Cons k ks)
  show ?case
  proof (cases "p (running st) k")
    case (Returns t)
    then show ?thesis using Cons.prems Cons.IH by (simp add: spec_step_def)
  next
    case (Raises e)
    then show ?thesis using Cons.prems Cons.IH by (simp add: spec_step_def)
  next
    case (RaisesBase b)
    then show ?thesis by simp
  qed
qed

lemma execute_loop_calls:
  "calls (snd (execute_loop p ks st))
   = calls st @ take (Suc (length (takeWhile (\<lambda>(t, k). \<not> system_exiting (p t k))
                                     (spec_inputs p (running st) ks))))
                  (spec_inputs p (running st) ks)"
proof (induction ks arbitrary: st)
  case Nil
  then show ?case by simp
next
  case (Cons k ks)
  show ?case
    by (cases "p (running st) k") (simp_all add: Cons.IH spec_step_def)
qed

lemma snd_spec_inputs: "map snd (spec_inputs p t ks) = ks"
  by (induction ks arbitrary: t) auto

text \<open>
  C7 (as amended). When no call of the transform along the chain raises outside the
  class \<open>Exception\<close>, \<open>execute_chain\<close> feeds the running text through the transform once
  per kind, in chain order; a step whose transform raises an \<open>Exception\<close> leaves the
  running text as it is and the remaining kinds are still executed; the result is a
  text, the fold of the steps over the chain. Otherwise the first exception outside
  \<open>Exception\<close> reaches the caller, and the calls made are those up to and including the
  one that raised it.
\<close>

theorem C7_execute_chain_amended:
  "(completes p txt chain \<longrightarrow>
      execute_chain txt chain p = Inr (foldl (spec_step p) txt chain)
      \<and> calls (snd (execute_chain_st txt chain p)) = spec_inputs p txt chain
      \<and> map snd (calls (snd (execute_chain_st txt chain p))) = chain)
   \<and> (\<not> completes p txt chain \<longrightarrow>
      (\<exists>b. execute_chain txt chain p = Inl b)
      \<and> calls (snd (execute_chain_st txt chain p))
        = take (Suc (length (takeWhile (\<lambda>(t, k). \<not> system_exiting (p t k))
                                (spec_inputs p txt chain))))
            (spec_inputs p txt chain)
      \<and> length (calls (snd (execute_chain_st txt chain p))) \<le> length chain)"
proof (intro conjI impI)
  let ?st = "\<lparr>running = txt, calls = [], logged = []\<rparr>"
  let ?ok = "\<lambda>(t, k). \<not> system_exiting (p t k)"
  obtain r st' where run: "execute_loop p chain ?st = (r, st')"
    by (cases "execute_loop p chain ?st")
  have cs: "calls st' = take (Suc (length (takeWhile ?ok (spec_inputs p txt chain))))
      (spec_inputs p txt chain)"
    using execute_loop_calls[of p chain ?st] run by simp
  have len: "length (spec_inputs p txt chain) = length chain"
    by (metis length_map snd_spec_inputs)
  {
    assume "completes p txt chain"
    then have all: "list_all ?ok (spec_inputs p (running ?st) chain)"
      by (simp add: completes_def)
    from execute_loop_completes[OF all] run
    have r: "r = None" and t: "running st' = foldl (spec_step p) txt chain"
      by simp_all
    have tw: "takeWhile ?ok (spec_inputs p txt chain) = spec_inputs p txt chain"
      using all by (intro takeWhile_eq_all_conv[THEN iffD2]) (simp add: list_all_iff)
    have c: "calls st' = spec_inputs p txt chain" unfolding cs tw by simp
    show "execute_chain txt chain p = Inr (foldl (spec_step p) txt chain)"
      using run r t by (simp add: execute_chain_def execute_chain_st_def)
    show "calls (snd (execute_chain_st txt chain p)) = spec_inputs p txt chain"
      using run c by (simp add: execute_chain_st_def)
    show "map snd (calls (snd (execute_chain_st txt chain p))) = chain"
      using run c by (simp add: execute_chain_st_def snd_spec_inputs)
  }
  {
    assume "\<not> completes p txt chain"
    then have "\<not> list_all ?ok (spec_inputs p (running ?st) chain)"
      by (simp add: completes_def)
    from execute_loop_aborts[OF this] run obtain b where "r = Some b" by auto
    then show "\<exists>b. execute_chain txt chain p = Inl b"
      using run by (simp add: execute_chain_def execute_chain_st_def)
    show "calls (snd (execute_chain_st txt chain p))
        = take (Suc (length (takeWhile ?ok (spec_inputs p txt chain))))
            (spec_inputs p txt chain)"
      using run cs by (simp add: execute_chain_st_def)
    show "length (calls (snd (execute_chain_st txt chain p))) \<le> length chain"
      using run cs len by (simp add: execute_chain_st_def)
  }
qed

theorem C7_execute_chain_amended_witness:
  "completes (fail_on CORRECTION) (str ''teh'') [CORRECTION, TRANSLATION]
   \<and> fail_on CORRECTION (str ''teh'') CORRECTION = Raises (Exception ''failed'')
   \<and> execute_chain (str ''teh'') [CORRECTION, TRANSLATION] (fail_on CORRECTION)
       = Inr (str ''teh!'')
   \<and> map snd (calls (snd (execute_chain_st (str ''teh'') [CORRECTION, TRANSLATION]
         (fail_on CORRECTION)))) = [CORRECTION, TRANSLATION]
   \<and> \<not> completes (interrupt_on CORRECTION) (str ''teh'') [CORRECTION, TRANSLATION]
   \<and> (\<exists>b. execute_chain (str ''teh'') [CORRECTION, TRANSLATION] (interrupt_on CORRECTION)
            = Inl b)
   \<and> calls (snd (execute_chain_st (str ''teh'') [CORRECTION, TRANSLATION]
         (interrupt_on CORRECTION))) = [(str ''teh'', CORRECTION)]"
proof -
  have c: "completes (fail_on CORRECTION) (str ''teh'') [CORRECTION, TRANSLATION]"
    by (simp add: completes_def fail_on_def spec_step_def)
  have n: "\<not> completes (interrupt_on CORRECTION) (str ''teh'') [CORRECTION, TRANSLATION]"
    by (simp add: completes_def interrupt_on_def spec_step_def)
  have f: "foldl (spec_step (fail_on CORRECTION)) (str ''teh'') [CORRECTION, TRANSLATION]
      = str ''teh!''"
    by (simp add: spec_step_def fail_on_def str_def)
  have r: "fail_on CORRECTION (str ''teh'') CORRECTION = Raises (Exception ''failed'')"
    by (simp add: fail_on_def)
  have t: "take (Suc (length (takeWhile (\<lambda>(t, k). \<not> system_exiting (interrupt_on CORRECTION t k))
                  (spec_inputs (interrupt_on CORRECTION) (str ''teh'') [CORRECTION, TRANSLATION]))))
            (spec_inputs (interrupt_on CORRECTION) (str ''teh'') [CORRECTION, TRANSLATION])
      = [(str ''teh'', CORRECTION)]"
    by (simp add: interrupt_on_def spec_step_def)
  from C7_execute_chain_amended [of "fail_on CORRECTION" "str ''teh''" "[CORRECTION, TRANSLATION]"]
    C7_execute_chain_amended [of "interrupt_on CORRECTION" "str ''teh''" "[CORRECTION, TRANSLATION]"]
    c n f r t
  show ?thesis by simp
qed

text \<open>
  C7 as stated fails: a transform that raises \<open>KeyboardInterrupt\<close> for the first kind ends
  the chain; the exception reaches the caller and the second kind is never executed.
\<close>

theorem C7_execute_chain_counterexample:
  "interrupt_on CORRECTION (str ''teh'') CORRECTION = RaisesBase KeyboardInterrupt
   \<and> execute_chain (str ''teh'') [CORRECTION, TRANSLATION] (interrupt_on CORRECTION)
       = Inl KeyboardInterrupt
   \<and> map snd (calls (snd (execute_chain_st (str ''teh'') [CORRECTION, TRANSLATION]
         (interrupt_on CORRECTION)))) = [CORRECTION]"
  by (simp add: execute_chain_def execute_chain_st_def interrupt_on_def)

section \<open>Properties of the PatternMatcher\<close>

text \<open>Evaluation of the detectors on the texts of the scenarios, for every runtime.\<close>

lemma rep_numeral:
  "rep f lo (numeral n) p
     = (if lo = 0 then [p] else []) @ concat (map (rep f (lo - 1) (pred_numeral n)) (f p))"
  by (simp add: numeral_eq_Suc)

lemmas re_defs = lits_def seq_def Plus_def Star_def Opt_def re_search_def re_match_def
  lit_matches_def is_word_def is_space_def ascii_upper_def ascii_lower_def to_lower_def
  cjk_def latin_def typo_word_def str_def rep_numeral

lemma react_code: "detect_code R react_text = False"
  by (simp add: detect_code_def re_defs react_text_def)

lemma react_typos: "detect_typos R react_text = False"
  by (simp add: detect_typos_def re_defs react_text_def)

lemma react_translation: "detect_translation_candidate R react_text = (False, '''')"
  by (simp add: detect_translation_candidate_def re_defs react_text_def)

lemma react_expansion: "detect_expansion_candidate R react_text = False"
  by (simp add: detect_expansion_candidate_def re_defs react_text_def)

lemma react_email: "detect_email_context R react_text = False"
  by (simp add: detect_email_context_def re_defs react_text_def)

lemma react_chat: "detect_chat_context R react_text = False"
  by (simp add: detect_chat_context_def re_defs react_text_def)

lemma teh_code: "detect_code R (str ''teh'') = False"
  by (simp add: detect_code_def re_defs)
lemma teh_typos: "detect_typos R (str ''teh'') = True"
  by (simp add: detect_typos_def re_defs)
lemma teh_translation: "detect_translation_candidate R (str ''teh'') = (True, ''en-zh'')"
  by (simp add: detect_translation_candidate_def re_defs)
lemma teh_expansion: "detect_expansion_candidate R (str ''teh'') = True"
  by (simp add: detect_expansion_candidate_def re_defs)
lemma teh_email: "detect_email_context R (str ''teh'') = False"
  by (simp add: detect_email_context_def re_defs)
lemma teh_chat: "detect_chat_context R (str ''teh'') = False"
  by (simp add: detect_chat_context_def re_defs)
lemma teh_key: "generate_cache_key R (str ''teh'') None = Inr (md5_hexdigest R (str ''teh''))"
  by (simp add: generate_cache_key_def surrogate_def str_def)

lemma def_teh_code: "detect_code R (str ''def teh(x):'') = True"
  by (simp add: detect_code_def re_defs)
lemma def_teh_typos: "detect_typos R (str ''def teh(x):'') = True"
  by (simp add: detect_typos_def re_defs)

section \<open>Properties of the StrategyMatcher\<close>

lemma miss_code:
  assumes "generate_cache_key R text ctx = Inr k" "map_of (match_cache M) k = None"
    "detect_code R text"
  shows "match_strategies R M text ctx preferences
     = (Inr [length (heap M)],
        M\<lparr>heap := heap M @ [code_match],
          match_cache := dict_set
            (if length (match_cache M) > cache_size M then tl (match_cache M) else match_cache M)
            k [length (heap M)]\<rparr>)"
  using assms
  by (simp add: match_strategies_def append_new_def finalize_matches_def sorted_desc_def Let_def)

text \<open>
  C6. On a cache miss for a text on which \<open>detect_code\<close> fires, \<open>match_strategies\<close>
  returns exactly one match, the protect-code match with priority CRITICAL and
  confidence 0.99, whatever the other detectors say and whatever the preferences are.
\<close>

theorem C6_code_short_circuit:
  assumes "generate_cache_key R text ctx = Inr k" and "map_of (match_cache M) k = None"
    and "detect_code R text"
  shows "\<exists>a M'. match_strategies R M text ctx preferences = (Inr [a], M')
      \<and> objects M' [a] = [code_match]
      \<and> priority code_match = CRITICAL \<and> confidence code_match = 99 / 100
      \<and> metadata code_match = [(''action'', ''protect_code'')]"
  unfolding miss_code[OF assms]
  by (simp add: objects_def code_match_def)

theorem C6_code_short_circuit_witness:
  "generate_cache_key sample_runtime (str ''def teh(x):'') None = Inr (str ''def teh(x):'')
   \<and> map_of (match_cache new_matcher) (str ''def teh(x):'') = None
   \<and> detect_code sample_runtime (str ''def teh(x):'')
   \<and> detect_typos sample_runtime (str ''def teh(x):'')
   \<and> (\<exists>a M'. match_strategies sample_runtime new_matcher (str ''def teh(x):'') None
                 (Some default_preferences) = (Inr [a], M')
          \<and> objects M' [a] = [code_match])"
proof -
  have k: "generate_cache_key sample_runtime (str ''def teh(x):'') None = Inr (str ''def teh(x):'')"
    by (simp add: generate_cache_key_def sample_runtime_def surrogate_def str_def)
  have m: "map_of (match_cache new_matcher) (str ''def teh(x):'') = None"
    by (simp add: new_matcher_def)
  have c: "detect_code sample_runtime (str ''def teh(x):'')"
    by (simp add: def_teh_code)
  have t: "detect_typos sample_runtime (str ''def teh(x):'')"
    by (simp add: def_teh_typos)
  from C6_code_short_circuit [OF k m c, of "Some default_preferences"] k m c t
  show ?thesis by blast
qed

lemma classify_react: "classify R M react_text preferences = ([], M)"
  by (simp add: classify_def react_typos react_translation react_expansion react_email
      react_chat)

lemma react_key: "generate_cache_key sample_runtime react_text None = Inr react_text"
  by (simp add: generate_cache_key_def sample_runtime_def react_text_def surrogate_def str_def)

text \<open>
  C8 (as amended). For the scenario text, on a cache miss and with any preferences,
  \<open>detect_code\<close> does not fire, the text is neither a translation candidate (it mixes
  both scripts and is not of the two-word form) nor an expansion candidate (21
  characters, no acronym at the start), and \<open>match_strategies\<close> returns the empty list.
\<close>

theorem C8_react_scenario_amended:
  assumes "generate_cache_key R react_text ctx = Inr k" and "map_of (match_cache M) k = None"
  shows "\<not> detect_code R react_text
     \<and> detect_translation_candidate R react_text = (False, '''')
     \<and> \<not> detect_expansion_candidate R react_text
     \<and> fst (match_strategies R M react_text ctx preferences) = Inr []"
  using assms
  by (simp add: match_strategies_def react_code react_translation react_expansion
      classify_react finalize_matches_def sorted_desc_def Let_def)

theorem C8_react_scenario_amended_witness:
  "generate_cache_key sample_runtime react_text None = Inr react_text
   \<and> map_of (match_cache new_matcher) react_text = None
   \<and> fst (match_strategies sample_runtime new_matcher react_text None (Some default_preferences))
       = Inr []"
proof -
  have m: "map_of (match_cache new_matcher) react_text = None"
    by (simp add: new_matcher_def)
  from C8_react_scenario_amended [OF react_key m, of "Some default_preferences"] react_key m
  show ?thesis by simp
qed

text \<open>
  C8 as stated fails: with all strategies enabled the scenario text gets no match at
  all, not exactly one.
\<close>

theorem C8_react_scenario_counterexample:
  "correction_enabled default_preferences \<and> expansion_enabled default_preferences
   \<and> translation_enabled default_preferences \<and> summarization_enabled default_preferences
   \<and> fst (match_strategies sample_runtime new_matcher react_text None (Some default_preferences))
       = Inr []
   \<and> length ([] :: nat list) \<noteq> 1"
  by (simp add: match_strategies_def react_key react_code classify_react finalize_matches_def
      sorted_desc_def Let_def new_matcher_def default_preferences_def)

lemma teh_first_call:
  "match_strategies R new_matcher (str ''teh'') None (Some no_correction)
   = (Inr [0, 1, 2], teh_cached R)"
  by (simp add: match_strategies_def teh_key teh_code teh_typos teh_translation
      teh_expansion teh_email teh_chat classify_def finalize_matches_def new_matcher_def
      sorted_desc_def append_new_def no_correction_def default_preferences_def teh_cached_def
      typo_match_def translation_match_def expansion_match_def less_prod_def Let_def)

lemma teh_second_call:
  "match_strategies R (teh_cached R) (str ''teh'') None (Some no_correction)
   = (Inr [1, 2], teh_cached R)"
  by (simp add: match_strategies_def teh_key apply_preferences_def no_correction_def
      default_preferences_def teh_cached_def typo_match_def translation_match_def
      expansion_match_def)

text \<open>
  C2 fails on the code: on a cache miss the preferences are not applied to the result
  (\<open>_finalize_matches\<close> takes them and does not use them), on a hit they are. With
  correction switched off, the first call on \<open>"teh"\<close> returns the correction match with
  the two others, the second call returns the two others only.
\<close>

theorem C2_repeated_call_differs:
  "match_strategies R new_matcher (str ''teh'') None (Some no_correction)
     = (Inr [0, 1, 2], teh_cached R)
   \<and> objects (teh_cached R) [0, 1, 2]
     = [typo_match, translation_match ''en-zh'', expansion_match]
   \<and> match_strategies R (teh_cached R) (str ''teh'') None (Some no_correction)
     = (Inr [1, 2], teh_cached R)
   \<and> objects (teh_cached R) [1, 2] = [translation_match ''en-zh'', expansion_match]"
proof -
  have "objects (teh_cached R) [0, 1, 2]
      = [typo_match, translation_match ''en-zh'', expansion_match]"
    and "objects (teh_cached R) [1, 2] = [translation_match ''en-zh'', expansion_match]"
    by (simp_all add: objects_def teh_cached_def)
  then show ?thesis by (simp add: teh_first_call teh_second_call)
qed

lemma dict_set_keys:
  "k \<notin> fst ` set d \<Longrightarrow> map fst (dict_set d k v) = map fst d @ [k]"
  by (induction d) auto

lemma length_dict_set: "length (dict_set d k v) \<le> Suc (length d)"
  by (induction d) auto

lemma classify_cache:
  "match_cache (snd (classify R M t p)) = match_cache M
   \<and> cache_size (snd (classify R M t p)) = cache_size M"
  by (simp add: classify_def append_new_def Let_def)

lemma miss_cache:
  assumes "generate_cache_key R t ctx = Inr k" "map_of (match_cache M) k = None"
  shows "\<exists>res. match_cache (snd (match_strategies R M t ctx p))
          = dict_set (if length (match_cache M) > cache_size M then tl (match_cache M)
                      else match_cache M) k res"
    and "cache_size (snd (match_strategies R M t ctx p)) = cache_size M"
  using assms classify_cache[of R M t p]
  by (auto simp: match_strategies_def finalize_matches_def append_new_def Let_def
      split: prod.splits)

lemma apply_preferences_cache:
  "match_cache (snd (apply_preferences M ms prefs)) = match_cache M
   \<and> cache_size (snd (apply_preferences M ms prefs)) = cache_size M"
  by (simp add: apply_preferences_def split: prod.splits)

lemma cache_bound:
  assumes "length (match_cache M) \<le> cache_size M + 1"
  shows "length (match_cache (snd (match_strategies R M t ctx p))) \<le> cache_size M + 1
     \<and> cache_size (snd (match_strategies R M t ctx p)) = cache_size M"
proof (cases "generate_cache_key R t ctx")
  case (Inl e)
  then show ?thesis using assms by (simp add: match_strategies_def)
next
  case (Inr k)
  show ?thesis
  proof (cases "map_of (match_cache M) k")
    case None
    from miss_cache[OF Inr None, of p] obtain res where
      c: "match_cache (snd (match_strategies R M t ctx p))
          = dict_set (if length (match_cache M) > cache_size M then tl (match_cache M)
                      else match_cache M) k res"
      and s: "cache_size (snd (match_strategies R M t ctx p)) = cache_size M"
      by blast
    have "length (dict_set (if length (match_cache M) > cache_size M then tl (match_cache M)
                      else match_cache M) k res) \<le> cache_size M + 1"
      using length_dict_set[of "tl (match_cache M)" k res]
        length_dict_set[of "match_cache M" k res] assms
      by (auto split: if_splits)
    then show ?thesis using c s by simp
  next
    case (Some ms)
    then show ?thesis using Inr assms apply_preferences_cache[of M ms]
      by (auto simp: match_strategies_def split: option.splits)
  qed
qed

lemma match_all_fills:
  "map (\<lambda>t. generate_cache_key R t None) texts = map Inr keys \<Longrightarrow> distinct keys
   \<Longrightarrow> set keys \<inter> fst ` set (match_cache M) = {}
   \<Longrightarrow> length (match_cache M) + length keys \<le> cache_size M + 1
   \<Longrightarrow> map fst (match_cache (match_all R M texts)) = map fst (match_cache M) @ keys
       \<and> cache_size (match_all R M texts) = cache_size M"
proof (induction texts arbitrary: M keys)
  case Nil
  then show ?case by simp
next
  case (Cons t ts)
  from Cons.prems(1) obtain k ks where keys: "keys = k # ks"
    and k: "generate_cache_key R t None = Inr k"
    and ks: "map (\<lambda>t. generate_cache_key R t None) ts = map Inr ks"
    by (cases keys) auto
  let ?M = "snd (match_strategies R M t None None)"
  have notin: "k \<notin> fst ` set (match_cache M)" using Cons.prems(3) keys by auto
  then have miss: "map_of (match_cache M) k = None" by (simp add: map_of_eq_None_iff)
  have small: "\<not> length (match_cache M) > cache_size M" using Cons.prems(4) keys by simp
  from miss_cache[OF k miss, of None] small obtain res where
    c: "match_cache ?M = dict_set (match_cache M) k res" and s: "cache_size ?M = cache_size M"
    by auto
  have fk: "map fst (match_cache ?M) = map fst (match_cache M) @ [k]"
    using c dict_set_keys[OF notin] by simp
  have d: "distinct ks" using Cons.prems(2) keys by simp
  have "fst ` set (match_cache ?M) = insert k (fst ` set (match_cache M))"
    using fk by (metis Un_insert_right append_Nil2 list.set(2) list.set_map set_append)
  then have disj: "set ks \<inter> fst ` set (match_cache ?M) = {}"
    using Cons.prems(2,3) keys by auto
  have "length (match_cache ?M) = Suc (length (match_cache M))"
    using fk by (metis length_append_singleton length_map)
  then have len: "length (match_cache ?M) + length ks \<le> cache_size ?M + 1"
    using Cons.prems(4) keys s by simp
  from Cons.IH[OF ks d disj len] fk s keys show ?case by simp
qed

text \<open>
  C4 fails on the code: the size test \<open>len(cache) > cache_size\<close> comes before the insertion,
  so an entry is evicted only when the cache already holds 1001 entries. After 1001
  calls whose cache keys are pairwise distinct, a new matcher holds 1001 entries, one
  more than its capacity of 1000. (\<open>cache_bound\<close> above gives the bound the code keeps:
  capacity plus one.)
\<close>

theorem C4_cache_exceeds_capacity:
  assumes "map (\<lambda>t. generate_cache_key R t None) texts = map Inr keys"
    and "distinct keys" and "length keys = 1001"
  shows "cache_size (match_all R new_matcher texts) = 1000
     \<and> length (match_cache (match_all R new_matcher texts)) = 1001"
proof -
  have "set keys \<inter> fst ` set (match_cache new_matcher) = {}"
    and "length (match_cache new_matcher) + length keys \<le> cache_size new_matcher + 1"
    using assms(3) by (simp_all add: new_matcher_def)
  from match_all_fills[OF assms(1,2) this]
  have "map fst (match_cache (match_all R new_matcher texts)) = keys"
    and "cache_size (match_all R new_matcher texts) = 1000"
    by (simp_all add: new_matcher_def)
  then show ?thesis using assms(3) by (metis length_map)
qed

lemma single_chars_keys:
  "n \<le> 55296 \<Longrightarrow>
   map (\<lambda>t. generate_cache_key sample_runtime t None) (single_chars n)
     = map Inr (single_chars n)"
  by (simp add: single_chars_def generate_cache_key_def sample_runtime_def surrogate_def)

theorem C4_cache_exceeds_capacity_witness:
  "map (\<lambda>t. generate_cache_key sample_runtime t None) (single_chars 1001)
     = map Inr (single_chars 1001)
   \<and> distinct (single_chars 1001) \<and> length (single_chars 1001) = 1001
   \<and> length (match_cache (match_all sample_runtime new_matcher (single_chars 1001))) = 1001"
proof -
  have k: "map (\<lambda>t. generate_cache_key sample_runtime t None) (single_chars 1001)
     = map Inr (single_chars 1001)"
    by (rule single_chars_keys) simp
  have d: "distinct (single_chars 1001)"
    by (simp add: single_chars_def distinct_map inj_on_def)
  have l: "length (single_chars 1001) = 1001"
    by (simp add: single_chars_def)
  from C4_cache_exceeds_capacity [OF k d l] k d l show ?thesis by simp
qed

lemma loop_Cons:
  "apply_preferences_loop prefs (a # as) result h =
     (case visit prefs (h ! a) of
        Skip \<Rightarrow> apply_preferences_loop prefs as result h
      | Keep \<Rightarrow> apply_preferences_loop prefs as (result @ [a]) h
      | Write pr \<Rightarrow> apply_preferences_loop prefs as (result @ [a])
                     (h[a := (h ! a)\<lparr>priority := pr\<rparr>])
      | Fail e \<Rightarrow> (Inl e, h))"
  by (cases "strategy_type (h ! a)")
     (auto simp: visit_def enabled_def Let_def split: option.splits sum.splits)

lemma update_priority_type:
  "strategy_type ((h[a := (h ! a)\<lparr>priority := pr\<rparr>]) ! b) = strategy_type (h ! b)"
  by (cases "a < length h") (auto simp: nth_list_update list_update_beyond)

lemma loop_types:
  "apply_preferences_loop prefs as result h = (r, h')
   \<Longrightarrow> length h' = length h \<and> (\<forall>b. strategy_type (h' ! b) = strategy_type (h ! b))"
proof (induction as arbitrary: result h)
  case Nil
  then show ?case by simp
next
  case (Cons a as)
  show ?case
    using Cons.prems
    by (auto simp: loop_Cons update_priority_type simp del: apply_preferences_loop.simps(2)
        split: visit.splits dest!: Cons.IH)
qed

lemma loop_result_mono:
  "apply_preferences_loop prefs as result h = (Inr res, h') \<Longrightarrow> set result \<subseteq> set res"
proof (induction as arbitrary: result h)
  case Nil
  then show ?case by simp
next
  case (Cons a as)
  show ?case
    using Cons.prems
    by (auto simp: loop_Cons simp del: apply_preferences_loop.simps(2)
        split: visit.splits dest!: Cons.IH)
qed

lemma visit_override:
  "strategy_priorities prefs k = Some v \<Longrightarrow> v \<noteq> 0 \<Longrightarrow> priority_of_value v = Inr pr
   \<Longrightarrow> strategy_type m = k \<Longrightarrow> visit prefs m = Write pr' \<Longrightarrow> pr' = pr"
  by (auto simp: visit_def split: if_splits)

lemma visit_enabled_override:
  "strategy_priorities prefs k = Some v \<Longrightarrow> v \<noteq> 0 \<Longrightarrow> priority_of_value v = Inr pr
   \<Longrightarrow> enabled prefs k \<Longrightarrow> strategy_type m = k \<Longrightarrow> visit prefs m = Write pr"
  by (simp add: visit_def)

lemma visit_no_override:
  "strategy_priorities prefs k = None \<Longrightarrow> strategy_type m = k \<Longrightarrow> visit prefs m \<noteq> Write pr"
  by (simp add: visit_def)

lemma visit_enabled:
  "enabled prefs k \<Longrightarrow> strategy_type m = k \<Longrightarrow> visit prefs m \<noteq> Skip"
  by (simp add: visit_def split: option.splits sum.splits)

lemma loop_tail:
  assumes "apply_preferences_loop prefs (a # as) result h = (Inr res, h')"
  shows "\<exists>result' h1. apply_preferences_loop prefs as result' h1 = (Inr res, h')
      \<and> length h1 = length h \<and> (\<forall>c. c \<noteq> a \<longrightarrow> h1 ! c = h ! c)
      \<and> (\<forall>c. strategy_type (h1 ! c) = strategy_type (h ! c))"
proof (cases "visit prefs (h ! a)")
  case Skip
  then have "apply_preferences_loop prefs as result h = (Inr res, h')"
    using assms by (simp add: loop_Cons del: apply_preferences_loop.simps(2))
  then show ?thesis by blast
next
  case Keep
  then have "apply_preferences_loop prefs as (result @ [a]) h = (Inr res, h')"
    using assms by (simp add: loop_Cons del: apply_preferences_loop.simps(2))
  then show ?thesis by blast
next
  case (Write pr)
  let ?h = "h[a := (h ! a)\<lparr>priority := pr\<rparr>]"
  have "apply_preferences_loop prefs as (result @ [a]) ?h = (Inr res, h')"
    using assms Write by (simp add: loop_Cons del: apply_preferences_loop.simps(2))
  moreover have "length ?h = length h" by simp
  moreover have "\<forall>c. c \<noteq> a \<longrightarrow> ?h ! c = h ! c" by simp
  moreover have "\<forall>c. strategy_type (?h ! c) = strategy_type (h ! c)"
    by (simp add: update_priority_type)
  ultimately show ?thesis by blast
next
  case (Fail e)
  then show ?thesis
    using assms by (simp add: loop_Cons del: apply_preferences_loop.simps(2))
qed

lemma loop_keeps_override:
  assumes "strategy_priorities prefs k = Some v" "v \<noteq> 0" "priority_of_value v = Inr pr"
  shows "apply_preferences_loop prefs as result h = (r, h') \<Longrightarrow> b < length h
    \<Longrightarrow> strategy_type (h ! b) = k \<Longrightarrow> priority (h ! b) = pr \<Longrightarrow> priority (h' ! b) = pr"
proof (induction as arbitrary: result h)
  case Nil
  then show ?case by simp
next
  case (Cons a as)
  show ?case
  proof (cases "visit prefs (h ! a)")
    case (Write pr')
    let ?h = "h[a := (h ! a)\<lparr>priority := pr'\<rparr>]"
    have step: "apply_preferences_loop prefs as (result @ [a]) ?h = (r, h')"
      using Cons.prems(1) Write by (simp add: loop_Cons del: apply_preferences_loop.simps(2))
    have "priority (?h ! b) = pr"
    proof (cases "a = b")
      case True
      then have "pr' = pr" using visit_override[OF assms _ Write] Cons.prems(3) by simp
      then show ?thesis using True Cons.prems(2) by simp
    next
      case False
      then show ?thesis using Cons.prems(4) by simp
    qed
    moreover have "b < length ?h" using Cons.prems(2) by simp
    moreover have "strategy_type (?h ! b) = k"
      using Cons.prems(3) by (simp add: update_priority_type)
    ultimately show ?thesis using Cons.IH[OF step] by blast
  qed (use Cons.prems in \<open>auto simp: loop_Cons simp del: apply_preferences_loop.simps(2)
        dest: Cons.IH\<close>)
qed

lemma loop_sets_override:
  assumes "strategy_priorities prefs k = Some v" "v \<noteq> 0" "priority_of_value v = Inr pr"
    and "enabled prefs k"
  shows "apply_preferences_loop prefs as result h = (Inr res, h')
    \<Longrightarrow> c \<in> set as \<Longrightarrow> c < length h \<Longrightarrow> strategy_type (h ! c) = k
    \<Longrightarrow> priority (h' ! c) = pr \<and> c \<in> set res"
proof (induction as arbitrary: result h)
  case Nil
  then show ?case by simp
next
  case (Cons a as)
  show ?case
  proof (cases "c = a")
    case True
    let ?h = "h[a := (h ! a)\<lparr>priority := pr\<rparr>]"
    have "visit prefs (h ! a) = Write pr"
      using visit_enabled_override[OF assms] Cons.prems(4) True by simp
    then have step: "apply_preferences_loop prefs as (result @ [a]) ?h = (Inr res, h')"
      using Cons.prems(1) by (simp add: loop_Cons del: apply_preferences_loop.simps(2))
    have "priority (?h ! c) = pr" using True Cons.prems(3) by simp
    moreover have "strategy_type (?h ! c) = k"
      using Cons.prems(4) by (simp add: update_priority_type)
    ultimately have "priority (h' ! c) = pr"
      using loop_keeps_override[OF assms(1,2,3) step, of c] Cons.prems(3) by simp
    moreover have "c \<in> set res" using loop_result_mono[OF step] True by auto
    ultimately show ?thesis by simp
  next
    case False
    then have in_as: "c \<in> set as" using Cons.prems(2) by simp
    from loop_tail[OF Cons.prems(1)] False obtain result' h1 where
      step: "apply_preferences_loop prefs as result' h1 = (Inr res, h')"
      and h1: "length h1 = length h" "h1 ! c = h ! c"
      by blast
    show ?thesis using Cons.IH[OF step in_as] h1 Cons.prems(3,4) by simp
  qed
qed

lemma loop_without_override:
  assumes "strategy_priorities prefs k = None"
  shows "apply_preferences_loop prefs as result h = (r, h')
    \<Longrightarrow> strategy_type (h ! b) = k \<Longrightarrow> priority (h' ! b) = priority (h ! b)"
proof (induction as arbitrary: result h)
  case Nil
  then show ?case by simp
next
  case (Cons a as)
  show ?case
  proof (cases "visit prefs (h ! a)")
    case (Write pr')
    let ?h = "h[a := (h ! a)\<lparr>priority := pr'\<rparr>]"
    have step: "apply_preferences_loop prefs as (result @ [a]) ?h = (r, h')"
      using Cons.prems(1) Write by (simp add: loop_Cons del: apply_preferences_loop.simps(2))
    have "a \<noteq> b" using visit_no_override[OF assms, of "h ! a" pr'] Write Cons.prems(2) by auto
    then have "?h ! b = h ! b" by simp
    then show ?thesis using Cons.IH[OF step] Cons.prems(2) by simp
  qed (use Cons.prems in \<open>auto simp: loop_Cons simp del: apply_preferences_loop.simps(2)
        dest: Cons.IH\<close>)
qed

lemma loop_enabled_result:
  assumes "enabled prefs k"
  shows "apply_preferences_loop prefs as result h = (Inr res, h')
    \<Longrightarrow> c \<in> set as \<Longrightarrow> strategy_type (h ! c) = k \<Longrightarrow> c \<in> set res"
proof (induction as arbitrary: result h)
  case Nil
  then show ?case by simp
next
  case (Cons a as)
  show ?case
  proof (cases "c = a")
    case True
    have "visit prefs (h ! a) \<noteq> Skip"
      using visit_enabled[OF assms] Cons.prems(3) True by simp
    then have "\<exists>h1. apply_preferences_loop prefs as (result @ [a]) h1 = (Inr res, h')"
      using Cons.prems(1)
      by (cases "visit prefs (h ! a)")
         (auto simp: loop_Cons simp del: apply_preferences_loop.simps(2))
    then obtain h1 where "apply_preferences_loop prefs as (result @ [a]) h1 = (Inr res, h')"
      by blast
    from loop_result_mono[OF this] True show ?thesis by auto
  next
    case False
    then have in_as: "c \<in> set as" using Cons.prems(2) by simp
    from loop_tail[OF Cons.prems(1)] obtain result' h1 where
      step: "apply_preferences_loop prefs as result' h1 = (Inr res, h')"
      and h1: "strategy_type (h1 ! c) = strategy_type (h ! c)"
      by blast
    show ?thesis using Cons.IH[OF step in_as] h1 Cons.prems(3) by simp
  qed
qed

lemma hit_with_preferences:
  assumes "generate_cache_key R text ctx = Inr key" "map_of (match_cache M) key = Some addrs"
  shows "match_strategies R M text ctx (Some prefs)
     = (fst (apply_preferences_loop prefs addrs [] (heap M)),
        M\<lparr>heap := snd (apply_preferences_loop prefs addrs [] (heap M))\<rparr>)"
  using assms by (simp add: match_strategies_def apply_preferences_def split: prod.splits)

lemma hit_without_preferences:
  assumes "generate_cache_key R text ctx = Inr key" "map_of (match_cache M) key = Some addrs"
  shows "match_strategies R M text ctx None = (Inr addrs, M)"
  using assms by (simp add: match_strategies_def)

text \<open>
  C10 (as amended). On a cache hit with preferences that let the kind \<open>k\<close> through and
  override its priority with a non-zero value of a \<open>StrategyPriority\<close>, a call that
  returns leaves every cached match of kind \<open>k\<close> with the overridden priority, written
  to the object itself. A later call for the same text and context without preferences
  returns the cached list, and one with other preferences that let \<open>k\<close> through and do
  not override it returns those matches too: both see the overridden priority.
\<close>

theorem C10_override_mutates_cache_amended:
  assumes "generate_cache_key R text ctx = Inr key"
    and "map_of (match_cache M) key = Some addrs"
    and "\<forall>a \<in> set addrs. a < length (heap M)"
    and "enabled prefs k" and "strategy_priorities prefs k = Some v" and "v \<noteq> 0"
    and "priority_of_value v = Inr pr"
    and "match_strategies R M text ctx (Some prefs) = (Inr res, M')"
  shows "(\<forall>a \<in> set addrs. strategy_type (heap M ! a) = k
            \<longrightarrow> priority (heap M' ! a) = pr \<and> a \<in> set res)
     \<and> match_strategies R M' text ctx None = (Inr addrs, M')
     \<and> (enabled prefs2 k \<and> strategy_priorities prefs2 k = None
          \<and> match_strategies R M' text ctx (Some prefs2) = (Inr res2, M'')
        \<longrightarrow> (\<forall>a \<in> set addrs. strategy_type (heap M ! a) = k
               \<longrightarrow> priority (heap M'' ! a) = pr \<and> a \<in> set res2))"
proof -
  obtain h' where loop: "apply_preferences_loop prefs addrs [] (heap M) = (Inr res, h')"
    and M': "M' = M\<lparr>heap := h'\<rparr>"
    using assms(8) unfolding hit_with_preferences[OF assms(1,2)]
    by (cases "apply_preferences_loop prefs addrs [] (heap M)") auto
  have cache: "map_of (match_cache M') key = Some addrs" using assms(2) M' by simp
  have first: "\<forall>a \<in> set addrs. strategy_type (heap M ! a) = k
            \<longrightarrow> priority (heap M' ! a) = pr \<and> a \<in> set res"
    using loop_sets_override[OF assms(5,6,7,4) loop] assms(3) M' by simp
  have types: "\<forall>b. strategy_type (heap M' ! b) = strategy_type (heap M ! b)"
    using loop_types[OF loop] M' by simp
  have second: "match_strategies R M' text ctx None = (Inr addrs, M')"
    by (rule hit_without_preferences[OF assms(1) cache])
  have third: "\<forall>a \<in> set addrs. strategy_type (heap M ! a) = k
               \<longrightarrow> priority (heap M'' ! a) = pr \<and> a \<in> set res2"
    if en: "enabled prefs2 k" and no: "strategy_priorities prefs2 k = None"
      and call: "match_strategies R M' text ctx (Some prefs2) = (Inr res2, M'')"
  proof -
    obtain h'' where loop2: "apply_preferences_loop prefs2 addrs [] (heap M') = (Inr res2, h'')"
      and M'': "M'' = M'\<lparr>heap := h''\<rparr>"
      using call unfolding hit_with_preferences[OF assms(1) cache]
      by (cases "apply_preferences_loop prefs2 addrs [] (heap M')") auto
    show ?thesis
    proof (intro ballI impI)
      fix a assume a: "a \<in> set addrs" "strategy_type (heap M ! a) = k"
      then have t: "strategy_type (heap M' ! a) = k" using types by simp
      have "priority (h'' ! a) = priority (heap M' ! a)"
        by (rule loop_without_override[OF no loop2 t])
      moreover have "a \<in> set res2"
        by (rule loop_enabled_result[OF en loop2 a(1) t])
      ultimately show "priority (heap M'' ! a) = pr \<and> a \<in> set res2"
        using first a M'' by simp
    qed
  qed
  from first second third show ?thesis by blast
qed

lemma teh_override_call:
  "match_strategies R (teh_cached R) (str ''teh'') None (Some correction_critical)
   = (Inr [0, 1, 2], teh_overridden R)"
  by (simp add: match_strategies_def teh_key apply_preferences_def correction_critical_def
      default_preferences_def teh_cached_def teh_overridden_def typo_match_def
      translation_match_def expansion_match_def priority_of_value_def)

theorem C10_override_mutates_cache_amended_witness:
  "generate_cache_key sample_runtime (str ''teh'') None
     = Inr (md5_hexdigest sample_runtime (str ''teh''))
   \<and> map_of (match_cache (teh_cached sample_runtime)) (md5_hexdigest sample_runtime (str ''teh''))
     = Some [0, 1, 2]
   \<and> length (heap (teh_cached sample_runtime)) = 3
   \<and> enabled correction_critical CORRECTION
   \<and> strategy_priorities correction_critical CORRECTION = Some 100
   \<and> priority_of_value 100 = Inr CRITICAL
   \<and> match_strategies sample_runtime (teh_cached sample_runtime) (str ''teh'') None
        (Some correction_critical) = (Inr [0, 1, 2], teh_overridden sample_runtime)
   \<and> strategy_type (heap (teh_cached sample_runtime) ! 0) = CORRECTION
   \<and> priority (heap (teh_cached sample_runtime) ! 0) = HIGH
   \<and> priority (heap (teh_overridden sample_runtime) ! 0) = CRITICAL
   \<and> match_strategies sample_runtime (teh_overridden sample_runtime) (str ''teh'') None None
     = (Inr [0, 1, 2], teh_overridden sample_runtime)
   \<and> enabled default_preferences CORRECTION
   \<and> strategy_priorities default_preferences CORRECTION = None
   \<and> match_strategies sample_runtime (teh_overridden sample_runtime) (str ''teh'') None
        (Some default_preferences) = (Inr [0, 1, 2], teh_overridden sample_runtime)"
proof -
  let ?R = sample_runtime
  have c: "map_of (match_cache (teh_cached ?R)) (md5_hexdigest ?R (str ''teh'')) = Some [0, 1, 2]"
    by (simp add: teh_cached_def)
  have w: "\<forall>a \<in> set [0, 1, 2]. a < length (heap (teh_cached ?R))"
    and l: "length (heap (teh_cached ?R)) = 3"
    by (simp_all add: teh_cached_def)
  have e: "enabled correction_critical CORRECTION"
    and o: "strategy_priorities correction_critical CORRECTION = Some 100"
    and nz: "(100::int) \<noteq> 0"
    and p: "priority_of_value 100 = Inr CRITICAL"
    and e2: "enabled default_preferences CORRECTION"
    and o2: "strategy_priorities default_preferences CORRECTION = None"
    by (simp_all add: enabled_def correction_critical_def default_preferences_def
        priority_of_value_def)
  have t: "strategy_type (heap (teh_cached ?R) ! 0) = CORRECTION"
    and h: "priority (heap (teh_cached ?R) ! 0) = HIGH"
    by (simp_all add: teh_cached_def typo_match_def)
  have d: "match_strategies ?R (teh_overridden ?R) (str ''teh'') None (Some default_preferences)
      = (Inr [0, 1, 2], teh_overridden ?R)"
    by (simp add: match_strategies_def teh_key apply_preferences_def default_preferences_def
        teh_overridden_def typo_match_def translation_match_def expansion_match_def)
  from C10_override_mutates_cache_amended [OF teh_key c w e o nz p teh_override_call,
      of default_preferences "[0, 1, 2]" "teh_overridden ?R"] t e2 o2 d
  have "priority (heap (teh_overridden ?R) ! 0) = CRITICAL"
    and "match_strategies ?R (teh_overridden ?R) (str ''teh'') None None
      = (Inr [0, 1, 2], teh_overridden ?R)"
    by simp_all
  then show ?thesis using teh_key c l e o p teh_override_call t h e2 o2 d by simp
qed

text \<open>
  C10 as stated fails: an override for a kind that the same preferences switch off is
  never written (the match is skipped first), and an override that is not the value of
  a priority raises \<open>ValueError\<close>; in both cases the cached correction match keeps its
  priority HIGH, which the next call observes.
\<close>

theorem C10_override_mutates_cache_counterexample:
  "map_of (match_cache (teh_cached sample_runtime)) (md5_hexdigest sample_runtime (str ''teh''))
     = Some [0, 1, 2]
   \<and> strategy_type (heap (teh_cached sample_runtime) ! 0) = CORRECTION
   \<and> priority (heap (teh_cached sample_runtime) ! 0) = HIGH
   \<and> strategy_priorities disabled_override CORRECTION = Some 100
   \<and> match_strategies sample_runtime (teh_cached sample_runtime) (str ''teh'') None
        (Some disabled_override) = (Inr [1, 2], teh_cached sample_runtime)
   \<and> strategy_priorities invalid_override CORRECTION = Some 7
   \<and> match_strategies sample_runtime (teh_cached sample_runtime) (str ''teh'') None
        (Some invalid_override)
     = (Inl (ValueError ''not a valid StrategyPriority''), teh_cached sample_runtime)
   \<and> match_strategies sample_runtime (teh_cached sample_runtime) (str ''teh'') None None
     = (Inr [0, 1, 2], teh_cached sample_runtime)"
  by (simp add: match_strategies_def teh_key apply_preferences_def disabled_override_def
      invalid_override_def no_correction_def default_preferences_def teh_cached_def
      typo_match_def translation_match_def expansion_match_def priority_of_value_def)


end
